theory Spec2Isabelle
  imports Main "HOL-Library.Char_ord" "HOL-Library.List_Lexorder" "HOL-Library.AList"
begin

section \<open>Go strings, runes and UTF-8\<close>

text \<open>
  A Go \<^verbatim>\<open>string\<close> is a sequence of bytes: it is modelled as \<^typ>\<open>string\<close>, a list of
  \<^typ>\<open>char\<close>, each \<^typ>\<open>char\<close> being one byte. A \<^verbatim>\<open>rune\<close> is a code point, modelled as a
  natural number. \<^verbatim>\<open>for i, c := range s\<close> decodes \<^verbatim>\<open>s\<close> as UTF-8: \<^verbatim>\<open>i\<close> is the byte
  index at which the code point \<^verbatim>\<open>c\<close> starts, and a byte that starts no well-formed
  encoding yields \<^verbatim>\<open>0xFFFD\<close> and advances by one byte (Go language specification,
  "For statements with range clause"; package \<^verbatim>\<open>unicode/utf8\<close>). \<^verbatim>\<open>string(u)\<close> for a
  rune slice \<^verbatim>\<open>u\<close> concatenates the UTF-8 encodings of the runes.
\<close>

definition byte :: "char \<Rightarrow> nat" where
  "byte c = of_char c"

definition RuneError :: nat where
  "RuneError = 0xFFFD"

definition between :: "nat \<Rightarrow> nat \<Rightarrow> char \<Rightarrow> bool" where
  "between lo hi c = (lo \<le> byte c \<and> byte c \<le> hi)"

text \<open>\<^verbatim>\<open>utf8.DecodeRuneInString\<close>: the first code point of \<^verbatim>\<open>s\<close> and its width in bytes.\<close>

fun decodeRune :: "string \<Rightarrow> nat \<times> nat" where
  "decodeRune [] = (RuneError, 0)"
| "decodeRune (c0 # cs) =
     (let b0 = byte c0 in
      if b0 < 0x80 then (b0, 1)
      else if 0xC2 \<le> b0 \<and> b0 \<le> 0xDF then
        (case cs of
           c1 # _ \<Rightarrow>
             if between 0x80 0xBF c1
             then ((b0 - 0xC0) * 64 + (byte c1 - 0x80), 2)
             else (RuneError, 1)
         | _ \<Rightarrow> (RuneError, 1))
      else if 0xE0 \<le> b0 \<and> b0 \<le> 0xEF then
        (case cs of
           c1 # c2 # _ \<Rightarrow>
             if between (if b0 = 0xE0 then 0xA0 else 0x80) (if b0 = 0xED then 0x9F else 0xBF) c1
                \<and> between 0x80 0xBF c2
             then ((b0 - 0xE0) * 4096 + (byte c1 - 0x80) * 64 + (byte c2 - 0x80), 3)
             else (RuneError, 1)
         | _ \<Rightarrow> (RuneError, 1))
      else if 0xF0 \<le> b0 \<and> b0 \<le> 0xF4 then
        (case cs of
           c1 # c2 # c3 # _ \<Rightarrow>
             if between (if b0 = 0xF0 then 0x90 else 0x80) (if b0 = 0xF4 then 0x8F else 0xBF) c1
                \<and> between 0x80 0xBF c2 \<and> between 0x80 0xBF c3
             then ((b0 - 0xF0) * 262144 + (byte c1 - 0x80) * 4096
                   + (byte c2 - 0x80) * 64 + (byte c3 - 0x80), 4)
             else (RuneError, 1)
         | _ \<Rightarrow> (RuneError, 1))
      else (RuneError, 1))"

text \<open>
  The pairs \<^verbatim>\<open>(i, c)\<close> that \<^verbatim>\<open>for i, c := range s\<close> goes through, in order; the first
  argument is the byte index of the head of the string that is left.
\<close>

function range_str :: "nat \<Rightarrow> string \<Rightarrow> (nat \<times> nat) list" where
  "range_str i [] = []"
| "range_str i (c0 # cs) =
     (i, fst (decodeRune (c0 # cs)))
       # range_str (i + snd (decodeRune (c0 # cs))) (drop (snd (decodeRune (c0 # cs))) (c0 # cs))"
  by pat_completeness auto
termination
proof (relation "measure (\<lambda>(i, s). length s)")
  show "wf (measure (\<lambda>(i, s). length s))" by simp
next
  fix i :: nat and c0 :: char and cs :: string
  have "1 \<le> snd (decodeRune (c0 # cs))"
    by (auto simp: Let_def split: list.splits)
  then show "((i + snd (decodeRune (c0 # cs)), drop (snd (decodeRune (c0 # cs))) (c0 # cs)), i, c0 # cs)
      \<in> measure (\<lambda>(i, s). length s)"
    by simp
qed

text \<open>The conversion \<^verbatim>\<open>string(r)\<close> of one rune, and \<^verbatim>\<open>string(u)\<close> of a rune slice.\<close>

definition encode3 :: "nat \<Rightarrow> string" where
  "encode3 r = [char_of (0xE0 + r div 4096), char_of (0x80 + (r div 64) mod 64),
                char_of (0x80 + r mod 64)]"

definition encodeRune :: "nat \<Rightarrow> string" where
  "encodeRune r =
     (if r < 0x80 then [char_of r]
      else if r < 0x800 then [char_of (0xC0 + r div 64), char_of (0x80 + r mod 64)]
      else if 0x10FFFF < r \<or> (0xD800 \<le> r \<and> r \<le> 0xDFFF) then encode3 RuneError
      else if r < 0x10000 then encode3 r
      else [char_of (0xF0 + r div 262144), char_of (0x80 + (r div 4096) mod 64),
            char_of (0x80 + (r div 64) mod 64), char_of (0x80 + r mod 64)])"

definition string_of_runes :: "nat list \<Rightarrow> string" where
  "string_of_runes u = concat (map encodeRune u)"

section \<open>The escape decoder and the token classifier\<close>

datatype kvtype = kvpUnknown | kvpHeader | kvpQuery | kvpBody | kvpJSON | kvpFile

definition backslash :: nat where
  "backslash = 0x5C"

text \<open>The loop of \<^verbatim>\<open>unescape\<close>, with its variables \<^verbatim>\<open>u\<close> and \<^verbatim>\<open>escape\<close>.\<close>

fun unescape_loop :: "nat list \<Rightarrow> bool \<Rightarrow> (nat \<times> nat) list \<Rightarrow> nat list" where
  "unescape_loop u escape [] = u"
| "unescape_loop u escape ((i, c) # rest) =
     (if escape then unescape_loop (u @ [c]) False rest
      else if c = backslash then unescape_loop u True rest
      else unescape_loop (u @ [c]) False rest)"

definition unescape :: "string \<Rightarrow> string" where
  "unescape s = string_of_runes (unescape_loop [] False (range_str 0 s))"

text \<open>
  Indexing and slicing a Go string panic out of range; the panic is a value of the model.
\<close>

datatype panic = IndexOutOfRange | SliceOutOfRange

definition index_str :: "string \<Rightarrow> nat \<Rightarrow> panic + char" where
  "index_str s i = (if i < length s then Inr (s ! i) else Inl IndexOutOfRange)"

definition slice_from :: "string \<Rightarrow> nat \<Rightarrow> panic + string" where
  "slice_from s i = (if i \<le> length s then Inr (drop i s) else Inl SliceOutOfRange)"

text \<open>\<^verbatim>\<open>i+1 < len(keyvalue) && keyvalue[i+1] == '='\<close>, evaluated left to right.\<close>

definition peek_eq :: "string \<Rightarrow> nat \<Rightarrow> panic + bool" where
  "peek_eq keyvalue i =
     (if i + 1 < length keyvalue
      then (case index_str keyvalue (i + 1) of Inl p \<Rightarrow> Inl p | Inr b \<Rightarrow> Inr (b = CHR ''=''))
      else Inr False)"

text \<open>\<^verbatim>\<open>return t, string(k), unescape(keyvalue[j:])\<close>\<close>

definition found :: "kvtype \<Rightarrow> nat list \<Rightarrow> string \<Rightarrow> nat \<Rightarrow> panic + (kvtype \<times> string \<times> string)" where
  "found t k keyvalue j =
     (case slice_from keyvalue j of
        Inl p \<Rightarrow> Inl p
      | Inr v \<Rightarrow> Inr (t, string_of_runes k, unescape v))"

fun parseKeyValue_loop ::
  "string \<Rightarrow> nat list \<Rightarrow> bool \<Rightarrow> (nat \<times> nat) list \<Rightarrow> panic + (kvtype \<times> string \<times> string)" where
  "parseKeyValue_loop keyvalue k escape [] = Inr (kvpUnknown, [], [])"
| "parseKeyValue_loop keyvalue k escape ((i, c) # rest) =
     (if escape then parseKeyValue_loop keyvalue (k @ [c]) False rest
      else if c = backslash then parseKeyValue_loop keyvalue k True rest
      else if c = byte CHR '':'' then
        (case peek_eq keyvalue i of
           Inl p \<Rightarrow> Inl p
         | Inr True \<Rightarrow> found kvpJSON k keyvalue (i + 2)
         | Inr False \<Rightarrow> found kvpHeader k keyvalue (i + 1))
      else if c = byte CHR ''='' then
        (case peek_eq keyvalue i of
           Inl p \<Rightarrow> Inl p
         | Inr True \<Rightarrow> found kvpQuery k keyvalue (i + 2)
         | Inr False \<Rightarrow> found kvpBody k keyvalue (i + 1))
      else if c = byte CHR ''@'' then found kvpFile k keyvalue (i + 1)
      else parseKeyValue_loop keyvalue (k @ [c]) False rest)"

definition parseKeyValue :: "string \<Rightarrow> panic + (kvtype \<times> string \<times> string)" where
  "parseKeyValue keyvalue = parseKeyValue_loop keyvalue [] False (range_str 0 keyvalue)"


section \<open>Go maps\<close>

text \<open>
  A Go map is modelled as an association list with one entry for each key: \<^const>\<open>map_of\<close>
  reads it, \<^const>\<open>AList.update\<close> is the assignment \<^verbatim>\<open>m[k] = v\<close>, \<^const>\<open>length\<close> is
  \<^verbatim>\<open>len(m)\<close>. The order of the list is the order in which \<^verbatim>\<open>range\<close> goes through the
  map; Go leaves that order open, and so does every statement below that is made for all
  lists.
\<close>

type_synonym ('k, 'v) gomap = "('k \<times> 'v) list"

text \<open>\<^verbatim>\<open>m[k]\<close> for a map of slices: a key that is absent reads as the empty slice.\<close>

definition index_values :: "(string, string list) gomap \<Rightarrow> string \<Rightarrow> string list" where
  "index_values m k = (case map_of m k of None \<Rightarrow> [] | Some vs \<Rightarrow> vs)"

section \<open>The argument aggregator\<close>

text \<open>
  The struct \<^verbatim>\<open>kvpairs\<close>; its field \<^verbatim>\<open>file\<close> is \<open>file_map\<close> here, \<open>file\<close> being a word
  of Isabelle's own.
\<close>

record kvpairs =
  headers :: "(string, string) gomap"
  query :: "(string, string list) gomap"
  body :: "(string, string list) gomap"
  js :: "(string, string) gomap"
  file_map :: "(string, string) gomap"

datatype fatal =
    Panic panic
  | BadKeyValue string
  | ErrorCreatingRequest
  | InvalidJson string
  | OnlyOneInputFile
  | UnableToOpenFileForBody
  | ErrorReadingBody
  | UnableToOpenFile
  | UnableToWriteFile

definition empty_kvpairs :: kvpairs where
  "empty_kvpairs = \<lparr>headers = [], query = [], body = [], js = [], file_map = []\<rparr>"

text \<open>
  One turn of the loop of \<^verbatim>\<open>parseArgs\<close>. In the case \<^verbatim>\<open>kvpBody\<close> the source reads
  \<^verbatim>\<open>vs := kvp.query[k]\<close> and then stores \<^verbatim>\<open>append(vs, v)\<close> in \<^verbatim>\<open>kvp.body[k]\<close>.

  A slice is the list of its elements here, and \<^verbatim>\<open>append(vs, v)\<close> the list with one element
  more. The arrays behind the slices are not part of the model: when \<^verbatim>\<open>kvp.query[k]\<close> has
  capacity to spare, the slice stored in \<^verbatim>\<open>kvp.body[k]\<close> shares its array, and a query token
  of the same key that comes later overwrites the last body value. The lists of the model
  are those of the program for all arguments in which no query token of a key follows a
  body token of that key.
\<close>

definition parseArgs_step :: "kvpairs \<Rightarrow> kvtype \<Rightarrow> string \<Rightarrow> string \<Rightarrow> kvpairs" where
  "parseArgs_step kvp t k v =
     (case t of
        kvpHeader \<Rightarrow> kvp\<lparr>headers := AList.update k v (headers kvp)\<rparr>
      | kvpQuery \<Rightarrow> kvp\<lparr>query := AList.update k (index_values (query kvp) k @ [v]) (query kvp)\<rparr>
      | kvpBody \<Rightarrow> kvp\<lparr>body := AList.update k (index_values (query kvp) k @ [v]) (body kvp)\<rparr>
      | kvpJSON \<Rightarrow> kvp\<lparr>js := AList.update k v (js kvp)\<rparr>
      | kvpFile \<Rightarrow> kvp\<lparr>file_map := AList.update k v (file_map kvp)\<rparr>
      | kvpUnknown \<Rightarrow> kvp)"

fun parseArgs_loop :: "kvpairs \<Rightarrow> string list \<Rightarrow> fatal + kvpairs" where
  "parseArgs_loop kvp [] = Inr kvp"
| "parseArgs_loop kvp (arg # args) =
     (case parseKeyValue arg of
        Inl p \<Rightarrow> Inl (Panic p)
      | Inr (t, k, v) \<Rightarrow>
          if t = kvpUnknown then Inl (BadKeyValue arg)
          else parseArgs_loop (parseArgs_step kvp t k v) args)"

definition parseArgs :: "string list \<Rightarrow> fatal + kvpairs" where
  "parseArgs args = parseArgs_loop empty_kvpairs args"


section \<open>Decoded values and value coercion\<close>

text \<open>
  The dynamic types that an \<^verbatim>\<open>interface{}\<close> holds in this program: \<^verbatim>\<open>nil\<close>, \<^verbatim>\<open>bool\<close>,
  \<^verbatim>\<open>string\<close>, \<^verbatim>\<open>float64\<close> (a number read by \<^verbatim>\<open>json.Unmarshal\<close>), \<^verbatim>\<open>json.Number\<close> (a
  number read by a decoder with \<^verbatim>\<open>UseNumber\<close>; it is a string type), \<^verbatim>\<open>[]string\<close> (a form
  field given several times), \<^verbatim>\<open>map[string]interface{}\<close> and \<^verbatim>\<open>[]interface{}\<close>. The type
  \<^typ>\<open>'f\<close> stands for \<^verbatim>\<open>float64\<close>.
\<close>

datatype 'f gvalue =
    GNil
  | GBool bool
  | GString string
  | GFloat64 'f
  | GNumber string
  | GStrings "string list"
  | GMap "(string \<times> 'f gvalue) list"
  | GSlice "'f gvalue list"

text \<open>What \<^verbatim>\<open>reflect.TypeOf\<close> prints.\<close>

fun typeName :: "'f gvalue \<Rightarrow> string" where
  "typeName GNil = ''<nil>''"
| "typeName (GBool _) = ''bool''"
| "typeName (GString _) = ''string''"
| "typeName (GFloat64 _) = ''float64''"
| "typeName (GNumber _) = ''json.Number''"
| "typeName (GStrings _) = ''[]string''"
| "typeName (GMap _) = ''map[string]interface {}''"
| "typeName (GSlice _) = ''[]interface {}''"

text \<open>The lines that \<^verbatim>\<open>log.Println\<close> writes.\<close>

datatype logmsg = UnknownType string | ExtraBodyParametersIgnored

type_synonym Values = "(string, string list) gomap"

text \<open>\<^verbatim>\<open>url.Values.Add\<close>: \<^verbatim>\<open>v[key] = append(v[key], value)\<close>\<close>

definition Add :: "Values \<Rightarrow> string \<Rightarrow> string \<Rightarrow> Values" where
  "Add vs key v = AList.update key (index_values vs key @ [v]) vs"

text \<open>
  \<^verbatim>\<open>addValues\<close>, with the formatter \<^verbatim>\<open>fmt.Sprintf("%g", _)\<close> as the parameter \<open>g\<close>; the
  values and the log are passed through.
\<close>

fun addValues ::
  "('f \<Rightarrow> string) \<Rightarrow> Values \<times> logmsg list \<Rightarrow> string \<Rightarrow> 'f gvalue \<Rightarrow> Values \<times> logmsg list" where
  "addValues g (vs, lg) key (GBool val) =
     (if val then (Add vs key ''true'', lg) else (Add vs key ''false'', lg))"
| "addValues g (vs, lg) key (GString val) = (Add vs key val, lg)"
| "addValues g (vs, lg) key (GFloat64 val) = (Add vs key (g val), lg)"
| "addValues g (vs, lg) key (GMap val) =
     fold (\<lambda>k st. addValues g st key (GString k)) (map fst val) (vs, lg)"
| "addValues g (vs, lg) key (GSlice val) =
     fold (\<lambda>v st. addValues g st key v) val (vs, lg)"
| "addValues g (vs, lg) key val = (vs, lg @ [UnknownType (typeName val)])"


section \<open>The JSON renderer\<close>

text \<open>
  What \<^verbatim>\<open>printJSON\<close> does to the terminal, in order: the strings it prints and the calls
  it makes to the colour package. \<^verbatim>\<open>strconv.Quote\<close> is the parameter \<open>quote\<close>.
\<close>

datatype color = ctNone | ctBlue | ctYellow

datatype out = Print string | ChangeColor color bool color bool | ResetColor

definition newline :: string where
  "newline = [CHR 0x0A]"

text \<open>\<^verbatim>\<open>for i := 0; i < n; i++ { fmt.Print("    ") }\<close>\<close>

definition indent :: "int \<Rightarrow> out list" where
  "indent n = replicate (nat n) (Print ''    '')"

text \<open>\<^verbatim>\<open>v[key]\<close> for a map of \<^verbatim>\<open>interface{}\<close>: a key that is absent reads as \<^verbatim>\<open>nil\<close>.\<close>

definition index_map :: "(string, 'f gvalue) gomap \<Rightarrow> string \<Rightarrow> 'f gvalue" where
  "index_map v key = (case map_of v key of None \<Rightarrow> GNil | Some x \<Rightarrow> x)"

text \<open>
  \<open>printMembers\<close> is the loop over the sorted keys of an object and \<open>printElems\<close> the
  loop over the elements of an array, each with its variable \<^verbatim>\<open>needNL\<close>. The depth is a
  Go \<^verbatim>\<open>int\<close>; it grows by one for each level of nesting of the value.
\<close>

text \<open>The measure that the recursion of the renderer goes down on.\<close>

fun weight :: "'f gvalue \<Rightarrow> nat" where
  "weight (GMap v) = 2 * size (GMap v)"
| "weight (GSlice v) = 2 * size (GSlice v)"
| "weight _ = 0"

function printJSON :: "(string \<Rightarrow> string) \<Rightarrow> int \<Rightarrow> 'f gvalue \<Rightarrow> bool \<Rightarrow> out list"
  and printMembers ::
    "(string \<Rightarrow> string) \<Rightarrow> int \<Rightarrow> (string, 'f gvalue) gomap \<Rightarrow> bool \<Rightarrow> string list \<Rightarrow> out list"
  and printElems :: "(string \<Rightarrow> string) \<Rightarrow> int \<Rightarrow> bool \<Rightarrow> 'f gvalue list \<Rightarrow> out list"
where
  "printJSON quote depth GNil isKey =
     [ChangeColor ctBlue False ctNone False, Print ''null'', ResetColor]"
| "printJSON quote depth (GBool v) isKey =
     [ChangeColor ctBlue False ctNone False, Print (if v then ''true'' else ''false''),
      ResetColor]"
| "printJSON quote depth (GString v) isKey =
     [if isKey then ChangeColor ctBlue True ctNone False
      else ChangeColor ctYellow False ctNone False,
      Print (quote v), ResetColor]"
| "printJSON quote depth (GNumber v) isKey =
     [ChangeColor ctBlue False ctNone False, Print v, ResetColor]"
| "printJSON quote depth (GMap v) isKey =
     (if length v = 0 then [Print ''{}'']
      else [Print (''{'' @ newline)]
           @ printMembers quote depth v False (sort (map fst v))
           @ [Print newline]
           @ indent (depth - 1)
           @ [Print ''}''])"
| "printJSON quote depth (GSlice v) isKey =
     (if length v = 0 then [Print ''[]'']
      else [Print (''['' @ newline)]
           @ printElems quote depth False v
           @ [Print newline]
           @ indent (depth - 1)
           @ [Print '']''])"
| "printJSON quote depth (GFloat64 v) isKey =
     [Print (''unknown type: '' @ typeName (GFloat64 v) @ newline)]"
| "printJSON quote depth (GStrings v) isKey =
     [Print (''unknown type: '' @ typeName (GStrings v :: 'f gvalue) @ newline)]"
| "printMembers quote depth v needNL [] = []"
| "printMembers quote depth v needNL (key # keys) =
     (if needNL then [Print ('','' @ newline)] else [])
     @ indent depth
     @ printJSON quote (depth + 1) (GString key) True
     @ [Print '': '']
     @ printJSON quote (depth + 1) (index_map v key) False
     @ printMembers quote depth v True keys"
| "printElems quote depth needNL [] = []"
| "printElems quote depth needNL (e # es) =
     (if needNL then [Print ('','' @ newline)] else [])
     @ indent depth
     @ printJSON quote (depth + 1) e False
     @ printElems quote depth True es"
  by pat_completeness auto
termination
proof (relation "measures
    [\<lambda>x. case x of
        Inl (q, d, val, k) \<Rightarrow> weight val
      | Inr (Inl (q, d, v, n, keys)) \<Rightarrow> weight (GMap v) - 1
      | Inr (Inr (q, d, n, es)) \<Rightarrow> weight (GSlice es) - 1,
     \<lambda>x. case x of
        Inl (q, d, val, k) \<Rightarrow> 0
      | Inr (Inl (q, d, v, n, keys)) \<Rightarrow> Suc (length keys)
      | Inr (Inr (q, d, n, es)) \<Rightarrow> Suc (length es)]")
  show "wf (measures
    [\<lambda>x. case x of
        Inl (q, d, val, k) \<Rightarrow> weight val
      | Inr (Inl (q, d, v, n, keys)) \<Rightarrow> weight (GMap v) - 1
      | Inr (Inr (q, d, n, es)) \<Rightarrow> weight (GSlice es) - 1,
     \<lambda>x. case x of
        Inl (q, d, val, k) \<Rightarrow> 0
      | Inr (Inl (q, d, v, n, keys)) \<Rightarrow> Suc (length keys)
      | Inr (Inr (q, d, n, es)) \<Rightarrow> Suc (length es)])"
    by simp
next
  fix v :: "(string, 'f gvalue) gomap" and key :: string
  have w: "\<And>x :: 'f gvalue. weight x \<le> 2 * size x"
  proof -
    fix x :: "'f gvalue" show "weight x \<le> 2 * size x" by (cases x) simp_all
  qed
  have "weight (index_map v key) \<le> 2 * size_list (size_prod (\<lambda>_. 0) size) v"
  proof (induction v)
    case Nil
    then show ?case by (simp add: index_map_def)
  next
    case (Cons p v)
    obtain k x where p: "p = (k, x)" by (cases p)
    show ?case
    proof (cases "k = key")
      case True
      then show ?thesis using w [of x] by (simp add: index_map_def p)
    next
      case False
      then show ?thesis using Cons.IH by (simp add: index_map_def p)
    qed
  qed
  then have idx: "weight (index_map v key) < weight (GMap v) - 1"
    by simp
  fix quote :: "string \<Rightarrow> string" and depth :: int and needNL :: bool and keys :: "string list"
  show "(Inl (quote, depth + 1, index_map v key, False), Inr (Inl (quote, depth, v, needNL, key # keys)))
      \<in> measures
    [\<lambda>x. case x of
        Inl (q, d, val, k) \<Rightarrow> weight val
      | Inr (Inl (q, d, v, n, keys)) \<Rightarrow> weight (GMap v) - 1
      | Inr (Inr (q, d, n, es)) \<Rightarrow> weight (GSlice es) - 1,
     \<lambda>x. case x of
        Inl (q, d, val, k) \<Rightarrow> 0
      | Inr (Inl (q, d, v, n, keys)) \<Rightarrow> Suc (length keys)
      | Inr (Inr (q, d, n, es)) \<Rightarrow> Suc (length es)]"
    using idx by simp
next
  fix e :: "'f gvalue" and es :: "'f gvalue list"
  have "weight e \<le> 2 * size e" by (cases e) simp_all
  then have el: "weight e < weight (GSlice (e # es)) - 1" by simp
  fix quote :: "string \<Rightarrow> string" and depth :: int and needNL :: bool
  show "(Inl (quote, depth + 1, e, False), Inr (Inr (quote, depth, needNL, e # es)))
      \<in> measures
    [\<lambda>x. case x of
        Inl (q, d, val, k) \<Rightarrow> weight val
      | Inr (Inl (q, d, v, n, keys)) \<Rightarrow> weight (GMap v) - 1
      | Inr (Inr (q, d, n, es)) \<Rightarrow> weight (GSlice es) - 1,
     \<lambda>x. case x of
        Inl (q, d, val, k) \<Rightarrow> 0
      | Inr (Inl (q, d, v, n, keys)) \<Rightarrow> Suc (length keys)
      | Inr (Inr (q, d, n, es)) \<Rightarrow> Suc (length es)]"
    using el by simp
qed simp_all


section \<open>Compiling the request\<close>

text \<open>
  The part of \<^verbatim>\<open>main\<close> from the command line to the request that is handed to the HTTP
  client: method, URL with its query, body and the headers that the body sets. The flags
  that only configure the client or the display are not part of it.
\<close>

record flags =
  postform :: bool
  useMultipart :: bool
  auth :: string

text \<open>
  A parsed URL: \<open>RawQuery\<close> is the text after the question mark, \<open>Prefix\<close> is what stands
  before it.
\<close>

record url =
  Prefix :: string
  RawQuery :: string


datatype fileerr = OpenFailed | ReadFailed

text \<open>
  What the program takes from the Go library and from the operating system, as parameters:
  \<^verbatim>\<open>url.Parse\<close> inside \<^verbatim>\<open>http.NewRequest\<close> (\<open>None\<close> is its error), \<^verbatim>\<open>url.ParseQuery\<close>,
  the value of the header that \<^verbatim>\<open>SetBasicAuth\<close> sets, \<^verbatim>\<open>json.Unmarshal\<close> into an
  \<^verbatim>\<open>interface{}\<close> (\<open>None\<close> is its error), \<^verbatim>\<open>json.Marshal\<close> of the body parameters (\<open>None\<close>
  is its error), \<^verbatim>\<open>fmt.Sprintf("%g", _)\<close>, \<^verbatim>\<open>os.Open\<close> followed by reading the whole file,
  and the multipart writer, which gets the file parts (field name, path, content) and the
  form fields in the order they are written and gives the body and its content type.
\<close>

record 'f extern =
  url_Parse :: "string \<Rightarrow> url option"
  ParseQuery :: "string \<Rightarrow> Values"
  BasicAuth :: "string \<Rightarrow> string \<Rightarrow> string"
  Unmarshal :: "string \<Rightarrow> 'f gvalue option"
  Marshal :: "(string, 'f gvalue) gomap \<Rightarrow> string option"
  Sprintf_g :: "'f \<Rightarrow> string"
  ReadFile :: "string \<Rightarrow> fileerr + string"
  MultipartBody :: "(string \<times> string \<times> string) list \<Rightarrow> (string \<times> string) list \<Rightarrow> string \<times> string"

record request =
  Method :: string
  URL :: url
  Header :: "(string, string list) gomap"
  Body :: "string option"
  ContentLength :: nat

datatype outcome = Usage | Fatal fatal | Compiled request

text \<open>\<^verbatim>\<open>http.Header.Set\<close> and \<^verbatim>\<open>http.Header.Add\<close>, for keys in canonical form.\<close>

definition Header_Set :: "(string, string list) gomap \<Rightarrow> string \<Rightarrow> string \<Rightarrow> (string, string list) gomap" where
  "Header_Set h k v = AList.update k [v] h"

definition Header_Add :: "(string, string list) gomap \<Rightarrow> string \<Rightarrow> string \<Rightarrow> (string, string list) gomap" where
  "Header_Add h k v = AList.update k (index_values h k @ [v]) h"

text \<open>\<^verbatim>\<open>strconv.Itoa\<close> of a length.\<close>

definition digit :: "nat \<Rightarrow> char" where
  "digit n = char_of (48 + n)"

function Itoa :: "nat \<Rightarrow> string" where
  "Itoa n = (if n < 10 then [digit n] else Itoa (n div 10) @ [digit (n mod 10)])"
  by pat_completeness auto
termination
  by (relation "measure (\<lambda>n. n)") auto

declare Itoa.simps [simp del]

text \<open>
  \<^verbatim>\<open>url.QueryEscape\<close> and \<^verbatim>\<open>url.Values.Encode\<close>: letters, digits and \<^verbatim>\<open>-_.~\<close> stay, a space
  becomes \<^verbatim>\<open>+\<close>, every other byte becomes \<^verbatim>\<open>%XX\<close>; the keys are sorted, and the pairs
  \<^verbatim>\<open>key=value\<close> are joined by \<^verbatim>\<open>&\<close>.
\<close>

definition shouldEscape :: "char \<Rightarrow> bool" where
  "shouldEscape c =
     (\<not> (between 0x61 0x7A c \<or> between 0x41 0x5A c \<or> between 0x30 0x39 c
         \<or> c \<in> set ''-_.~''))"

definition upperhex :: "nat \<Rightarrow> char" where
  "upperhex n = ''0123456789ABCDEF'' ! n"

definition QueryEscape :: "string \<Rightarrow> string" where
  "QueryEscape s =
     concat (map (\<lambda>c. if shouldEscape c
                      then (if c = CHR '' '' then ''+''
                            else [CHR ''%'', upperhex (byte c div 16), upperhex (byte c mod 16)])
                      else [c]) s)"

fun join :: "string \<Rightarrow> string list \<Rightarrow> string" where
  "join sep [] = []"
| "join sep [x] = x"
| "join sep (x # y # ys) = x @ sep @ join sep (y # ys)"

definition Encode :: "Values \<Rightarrow> string" where
  "Encode v =
     join ''&'' (concat (map (\<lambda>k. map (\<lambda>x. QueryEscape k @ ''='' @ QueryEscape x) (index_values v k))
                             (sort (map fst v))))"

text \<open>\<^verbatim>\<open>req.URL.Query()\<close>: the query of a URL without one is the empty map.\<close>

definition URL_Query :: "'f extern \<Rightarrow> url \<Rightarrow> Values" where
  "URL_Query E u = (if RawQuery u = [] then [] else ParseQuery E (RawQuery u))"

definition method_tokens :: "string list" where
  "method_tokens = [''GET'', ''HEAD'', ''POST'', ''PUT'', ''DELETE'', ''PURGE'', ''TRACE'',
                    ''OPTIONS'', ''CONNECT'', ''PATCH'']"

definition HasPrefix :: "string \<Rightarrow> string \<Rightarrow> bool" where
  "HasPrefix s p = (take (length p) s = p)"

text \<open>\<^verbatim>\<open>strings.SplitN(s, ":", 2)\<close>\<close>

definition SplitN2 :: "string \<Rightarrow> string list" where
  "SplitN2 s =
     (if CHR '':'' \<in> set s
      then [takeWhile (\<lambda>c. c \<noteq> CHR '':'') s, tl (dropWhile (\<lambda>c. c \<noteq> CHR '':'') s)]
      else [s])"

text \<open>Lines 251 to 254: \<^verbatim>\<open>s[1]\<close> panics when the flag holds no colon.\<close>

definition set_auth :: "'f extern \<Rightarrow> flags \<Rightarrow> request \<Rightarrow> panic + request" where
  "set_auth E fl req =
     (if auth fl \<noteq> [] then
        (case SplitN2 (auth fl) of
           s0 # s1 # _ \<Rightarrow> Inr (req\<lparr>Header := Header_Set (Header req) ''Authorization'' (BasicAuth E s0 s1)\<rparr>)
         | _ \<Rightarrow> Inl IndexOutOfRange)
      else Inr req)"

text \<open>Lines 266 to 274: the query parameters are added to those of the URL.\<close>

definition add_query :: "'f extern \<Rightarrow> kvpairs \<Rightarrow> url \<Rightarrow> url" where
  "add_query E kvp u =
     (if length (query kvp) > 0
      then u\<lparr>RawQuery :=
               Encode (fold (\<lambda>(k, vs) queryparams. fold (\<lambda>v qp. Add qp k v) vs queryparams)
                         (query kvp) (URL_Query E u))\<rparr>
      else u)"

text \<open>Lines 276 to 290: the body parameters, form fields first, then the JSON fragments.\<close>

definition body_value :: "string list \<Rightarrow> 'f gvalue" where
  "body_value v = (if length v = 1 then GString (v ! 0) else GStrings v)"

definition add_body :: "(string, string list) gomap \<Rightarrow> (string, 'f gvalue) gomap \<Rightarrow> (string, 'f gvalue) gomap" where
  "add_body b bodyparams = fold (\<lambda>(k, v) bp. AList.update k (body_value v) bp) b bodyparams"

fun add_js ::
  "'f extern \<Rightarrow> (string, string) gomap \<Rightarrow> (string, 'f gvalue) gomap \<Rightarrow> fatal + (string, 'f gvalue) gomap" where
  "add_js E [] bodyparams = Inr bodyparams"
| "add_js E ((k, v) # rest) bodyparams =
     (case Unmarshal E v of
        None \<Rightarrow> Inl (InvalidJson v)
      | Some vint \<Rightarrow> add_js E rest (AList.update k vint bodyparams))"

definition merge_params :: "'f extern \<Rightarrow> kvpairs \<Rightarrow> fatal + (string, 'f gvalue) gomap" where
  "merge_params E kvp = add_js E (js kvp) (add_body (body kvp) [])"

text \<open>Lines 293 to 301.\<close>

definition rawBodyFilename :: "(string, string) gomap \<Rightarrow> string" where
  "rawBodyFilename f = fold (\<lambda>(k, v) name. if k = ''-'' then v else name) f []"

definition postFiles :: "(string, string) gomap \<Rightarrow> bool" where
  "postFiles f = fold (\<lambda>(k, v) p. if k = ''-'' then False else p) f (length f > 0)"

text \<open>The loops over the files of the multipart branch and of the branch after it.\<close>

fun read_parts :: "'f extern \<Rightarrow> (string, string) gomap \<Rightarrow> fatal + (string \<times> string \<times> string) list" where
  "read_parts E [] = Inr []"
| "read_parts E ((k, v) # fs) =
     (case ReadFile E v of
        Inl OpenFailed \<Rightarrow> Inl UnableToOpenFile
      | Inl ReadFailed \<Rightarrow> Inl UnableToWriteFile
      | Inr content \<Rightarrow>
          (case read_parts E fs of
             Inl e \<Rightarrow> Inl e
           | Inr parts \<Rightarrow> Inr ((k, v, content) # parts)))"

fun read_into ::
  "'f extern \<Rightarrow> (string, string) gomap \<Rightarrow> (string, 'f gvalue) gomap \<Rightarrow> fatal + (string, 'f gvalue) gomap" where
  "read_into E [] bodyparams = Inr bodyparams"
| "read_into E ((k, v) # fs) bodyparams =
     (case ReadFile E v of
        Inl OpenFailed \<Rightarrow> Inl UnableToOpenFileForBody
      | Inl ReadFailed \<Rightarrow> Inl ErrorReadingBody
      | Inr val \<Rightarrow> read_into E fs (AList.update k (GString val) bodyparams))"

text \<open>\<^verbatim>\<open>values := url.Values{}; for k, v := range bodyparams { addValues(values, k, v) }\<close>\<close>

definition coerce :: "'f extern \<Rightarrow> (string, 'f gvalue) gomap \<Rightarrow> Values \<times> logmsg list" where
  "coerce E bodyparams = fold (\<lambda>(k, v) st. addValues (Sprintf_g E) st k v) bodyparams ([], [])"

text \<open>
  Lines 303 to 398: the body (\<open>None\<close> is the \<^verbatim>\<open>nil\<close> slice), the headers, and the lines
  logged on the way; a fatal error ends the program.
\<close>

definition assemble ::
  "'f extern \<Rightarrow> flags \<Rightarrow> kvpairs \<Rightarrow> (string, 'f gvalue) gomap \<Rightarrow> (string, string list) gomap
   \<Rightarrow> logmsg list \<times> (fatal + (string option \<times> (string, string list) gomap))" where
  "assemble E fl kvp bodyparams hdr =
     (if rawBodyFilename (file_map kvp) \<noteq> [] then
        (if length (file_map kvp) > 1 then ([], Inl OnlyOneInputFile)
         else
           let lg = (if length bodyparams > 0 then [ExtraBodyParametersIgnored] else []) in
           (case ReadFile E (rawBodyFilename (file_map kvp)) of
              Inl OpenFailed \<Rightarrow> (lg, Inl UnableToOpenFileForBody)
            | Inl ReadFailed \<Rightarrow> (lg, Inl ErrorReadingBody)
            | Inr content \<Rightarrow>
                (lg, Inr (Some content, Header_Add hdr ''Content-Type'' ''application/octet-stream''))))
      else if postFiles (file_map kvp) \<and> useMultipart fl then
        (case read_parts E (file_map kvp) of
           Inl e \<Rightarrow> ([], Inl e)
         | Inr parts \<Rightarrow>
             (case coerce E bodyparams of
                (vals, lg) \<Rightarrow>
                  (case MultipartBody E parts (concat (map (\<lambda>(k, v). map (\<lambda>vv. (k, vv)) v) vals)) of
                     (content, ctype) \<Rightarrow>
                       (lg, Inr (Some content, Header_Add hdr ''Content-Type'' ctype)))))
      else if length bodyparams > 0 \<or> length (file_map kvp) > 0 then
        (case read_into E (file_map kvp) bodyparams of
           Inl e \<Rightarrow> ([], Inl e)
         | Inr bp \<Rightarrow>
             if postform fl then
               (case coerce E bp of
                  (vals, lg) \<Rightarrow>
                    (lg, Inr (Some (Encode vals),
                              Header_Set hdr ''Content-Type'' ''application/x-www-form-urlencoded'')))
             else ([], Inr (Marshal E bp, Header_Set hdr ''Content-Type'' ''application/json'')))
      else ([], Inr (None, hdr)))"

text \<open>Lines 400 to 407.\<close>

definition finish :: "bool \<Rightarrow> string option \<Rightarrow> request \<Rightarrow> request" where
  "finish methodProvided b req =
     (case b of
        None \<Rightarrow> req
      | Some content \<Rightarrow>
          req\<lparr>Body := Some content,
              ContentLength := length content,
              Header := Header_Set (Header req) ''Content-Length'' (Itoa (length content)),
              Method := (if \<not> methodProvided then ''POST'' else Method req)\<rparr>)"

text \<open>Lines 256 to 407, from the key/value arguments on.\<close>

definition build :: "'f extern \<Rightarrow> flags \<Rightarrow> bool \<Rightarrow> request \<Rightarrow> string list \<Rightarrow> logmsg list \<times> outcome" where
  "build E fl methodProvided req args =
     (case parseArgs args of
        Inl e \<Rightarrow> ([], Fatal e)
      | Inr kvp \<Rightarrow>
          (case merge_params E kvp of
             Inl e \<Rightarrow> ([], Fatal e)
           | Inr bodyparams \<Rightarrow>
               (case assemble E fl kvp bodyparams (Header req) of
                  (lg, Inl e) \<Rightarrow> (lg, Fatal e)
                | (lg, Inr (b, hdr)) \<Rightarrow>
                    (lg, Compiled (finish methodProvided b
                            (req\<lparr>URL := add_query E kvp (URL req), Header := hdr\<rparr>))))))"

text \<open>Lines 204 to 254: the method, the URL and the request object.\<close>

definition compile :: "'f extern \<Rightarrow> flags \<Rightarrow> string list \<Rightarrow> logmsg list \<times> outcome" where
  "compile E fl args =
     (case args of
        [] \<Rightarrow> ([], Usage)
      | a # rest \<Rightarrow>
          let token = (a \<in> set method_tokens);
              method = (if token then a else if postform fl then ''POST'' else ''GET'');
              methodProvided = (postform fl \<or> token)
          in (case (if token then rest else args) of
                [] \<Rightarrow> ([], Fatal (Panic IndexOutOfRange))
              | a0 # kvargs \<Rightarrow>
                  let u = (if \<not> HasPrefix a0 ''http://'' \<and> \<not> HasPrefix a0 ''https://''
                           then ''http://'' @ a0 else a0)
                  in (case url_Parse E u of
                        None \<Rightarrow> ([], Fatal ErrorCreatingRequest)
                      | Some parsed \<Rightarrow>
                          (case set_auth E fl \<lparr>Method = method, URL = parsed, Header = [],
                                               Body = None, ContentLength = 0\<rparr> of
                             Inl p \<Rightarrow> ([], Fatal (Panic p))
                           | Inr req \<Rightarrow> build E fl methodProvided req kvargs))))"


section \<open>Notions that the properties are stated with\<close>

text \<open>
  Scanning the bytes of an argument from the left, \<open>e\<close> telling whether the byte before
  was an unescaped backslash: \<open>None\<close> when an unescaped \<^verbatim>\<open>:\<close>, \<^verbatim>\<open>=\<close> or \<^verbatim>\<open>@\<close> is met, else
  \<open>Some e'\<close>, where \<open>e'\<close> tells whether the text ends in an unescaped backslash.
\<close>

fun esc_scan :: "bool \<Rightarrow> string \<Rightarrow> bool option" where
  "esc_scan e [] = Some e"
| "esc_scan e (c # cs) =
     (if e then esc_scan False cs
      else if c = CHR 0x5C then esc_scan True cs
      else if c = CHR '':'' \<or> c = CHR ''='' \<or> c = CHR ''@'' then None
      else esc_scan False cs)"

text \<open>
  The index of the first unescaped \<^verbatim>\<open>:\<close> or \<^verbatim>\<open>=\<close> of an argument, if it holds one; an
  \<^verbatim>\<open>@\<close> is passed over.
\<close>

fun first_colon_or_equals :: "bool \<Rightarrow> string \<Rightarrow> nat option" where
  "first_colon_or_equals e [] = None"
| "first_colon_or_equals e (c # cs) =
     (if e then map_option Suc (first_colon_or_equals False cs)
      else if c = CHR 0x5C then map_option Suc (first_colon_or_equals True cs)
      else if c = CHR '':'' \<or> c = CHR ''='' then Some 0
      else map_option Suc (first_colon_or_equals False cs))"

text \<open>Well-formed UTF-8, as RFC 3629 defines it.\<close>

fun valid_utf8 :: "string \<Rightarrow> bool" where
  "valid_utf8 [] = True"
| "valid_utf8 (c0 # cs) =
     (let b0 = byte c0 in
      if b0 < 0x80 then valid_utf8 cs
      else if 0xC2 \<le> b0 \<and> b0 \<le> 0xDF then
        (case cs of c1 # r \<Rightarrow> between 0x80 0xBF c1 \<and> valid_utf8 r | _ \<Rightarrow> False)
      else if b0 = 0xE0 then
        (case cs of c1 # c2 # r \<Rightarrow> between 0xA0 0xBF c1 \<and> between 0x80 0xBF c2 \<and> valid_utf8 r
         | _ \<Rightarrow> False)
      else if (0xE1 \<le> b0 \<and> b0 \<le> 0xEC) \<or> b0 = 0xEE \<or> b0 = 0xEF then
        (case cs of c1 # c2 # r \<Rightarrow> between 0x80 0xBF c1 \<and> between 0x80 0xBF c2 \<and> valid_utf8 r
         | _ \<Rightarrow> False)
      else if b0 = 0xED then
        (case cs of c1 # c2 # r \<Rightarrow> between 0x80 0x9F c1 \<and> between 0x80 0xBF c2 \<and> valid_utf8 r
         | _ \<Rightarrow> False)
      else if b0 = 0xF0 then
        (case cs of c1 # c2 # c3 # r \<Rightarrow>
           between 0x90 0xBF c1 \<and> between 0x80 0xBF c2 \<and> between 0x80 0xBF c3 \<and> valid_utf8 r
         | _ \<Rightarrow> False)
      else if 0xF1 \<le> b0 \<and> b0 \<le> 0xF3 then
        (case cs of c1 # c2 # c3 # r \<Rightarrow>
           between 0x80 0xBF c1 \<and> between 0x80 0xBF c2 \<and> between 0x80 0xBF c3 \<and> valid_utf8 r
         | _ \<Rightarrow> False)
      else if b0 = 0xF4 then
        (case cs of c1 # c2 # c3 # r \<Rightarrow>
           between 0x80 0x8F c1 \<and> between 0x80 0xBF c2 \<and> between 0x80 0xBF c3 \<and> valid_utf8 r
         | _ \<Rightarrow> False)
      else False)"

text \<open>
  The form fields that the specification lets a decoded value contribute under a key, in
  order: one for a boolean, a string or a number, the keys for an object, the fields of the
  elements for an array, none for anything else.
\<close>

fun fields :: "('f \<Rightarrow> string) \<Rightarrow> 'f gvalue \<Rightarrow> string list" where
  "fields g (GBool b) = [if b then ''true'' else ''false'']"
| "fields g (GString s) = [s]"
| "fields g (GFloat64 x) = [g x]"
| "fields g (GMap m) = map fst m"
| "fields g (GSlice xs) = concat (map (fields g) xs)"
| "fields g _ = []"

fun scalar :: "'f gvalue \<Rightarrow> bool" where
  "scalar (GBool _) = True"
| "scalar (GString _) = True"
| "scalar (GFloat64 _) = True"
| "scalar _ = False"

text \<open>
  What \<^verbatim>\<open>fmt.Sprintf("%g", x)\<close> returns for a \<^verbatim>\<open>float64\<close> that is a whole number of
  magnitude below \<^verbatim>\<open>2^53\<close>, given here as that number. The formatter is
  \<^verbatim>\<open>strconv.FormatFloat(x, 'g', -1, 64)\<close>: the digits are the fewest that read back as
  \<^verbatim>\<open>x\<close>, for a whole number its decimal digits up to the last one that is not zero; with
  the decimal exponent below 6 they are written out as the whole number, from 6 on in
  the exponent form \<^verbatim>\<open>d.ddde+XX\<close>, the exponent with two digits at least.
\<close>

definition exponent_text :: "nat \<Rightarrow> string" where
  "exponent_text e = ''e+'' @ (if e < 10 then ''0'' else []) @ Itoa e"

definition Sprintf_g_whole :: "int \<Rightarrow> string" where
  "Sprintf_g_whole x =
     (let ds = Itoa (nat \<bar>x\<bar>);
          frac = rev (dropWhile (\<lambda>c. c = CHR ''0'') (rev (tl ds)))
      in (if x < 0 then ''-'' else []) @
         (if length ds - 1 < 6 then ds
          else hd ds # (if frac = [] then [] else ''.'' @ frac) @ exponent_text (length ds - 1)))"

text \<open>The text that reaches the terminal, the colour calls left out.\<close>

fun text_of :: "out list \<Rightarrow> string" where
  "text_of [] = []"
| "text_of (Print s # rest) = s @ text_of rest"
| "text_of (_ # rest) = text_of rest"

definition spaces :: "int \<Rightarrow> string" where
  "spaces n = concat (replicate (nat n) ''    '')"

text \<open>One member of an object at the given depth: indentation, quoted key, colon, value.\<close>

definition member_text :: "(string \<Rightarrow> string) \<Rightarrow> int \<Rightarrow> (string, 'f gvalue) gomap \<Rightarrow> string \<Rightarrow> string" where
  "member_text quote depth v key =
     spaces depth @ quote key @ '': '' @ text_of (printJSON quote (depth + 1) (index_map v key) False)"

text \<open>
  An environment to run the model in: a URL is split at its first question mark, the
  only JSON texts that decode are \<^verbatim>\<open>2\<close> and \<^verbatim>\<open>null\<close>, the file \<^verbatim>\<open>body.bin\<close> holds five
  bytes and no other file can be opened; \<^typ>\<open>int\<close> stands for \<^verbatim>\<open>float64\<close>. In particular
  the empty path cannot be opened, as on every system.
\<close>

definition example_extern :: "int extern" where
  "example_extern =
     \<lparr>url_Parse =
        (\<lambda>u. Some \<lparr>Prefix = takeWhile (\<lambda>c. c \<noteq> CHR ''?'') u,
                   RawQuery = drop 1 (dropWhile (\<lambda>c. c \<noteq> CHR ''?'') u)\<rparr>),
      ParseQuery = (\<lambda>q. []),
      BasicAuth = (\<lambda>user password. ''Basic '' @ user @ '':'' @ password),
      Unmarshal =
        (\<lambda>s. if s = ''2'' then Some (GFloat64 2) else if s = ''null'' then Some GNil else None),
      Marshal = (\<lambda>bodyparams. Some (''{'' @ concat (map fst bodyparams) @ ''}'')),
      Sprintf_g = (\<lambda>x. if x = 2 then ''2'' else ''?''),
      ReadFile = (\<lambda>path. if path = ''body.bin'' then Inr ''BYTES'' else Inl OpenFailed),
      MultipartBody = (\<lambda>parts fields. (concat (map (\<lambda>(k, v, c). c) parts), ''multipart/form-data''))\<rparr>"



section \<open>UTF-8 decoding and the scan of an argument\<close>

lemma decodeRune_width: "s \<noteq> [] \<Longrightarrow> 1 \<le> snd (decodeRune s) \<and> snd (decodeRune s) \<le> length s"
  by (cases s) (auto simp: Let_def split: list.splits)

lemma byte_less_256: "byte c < 256"
  by (simp add: byte_def)

lemma byte_eq_iff: "byte c = byte d \<longleftrightarrow> c = d"
  by (simp add: byte_def)

lemma decodeRune_cases:
  assumes "decodeRune (c0 # cs) = (c, w)"
  shows "(w = 1 \<and> byte c0 < 0x80 \<and> c = byte c0)
       \<or> (1 \<le> w \<and> w \<le> Suc (length cs) \<and> 0x80 \<le> c \<and> (\<forall>b \<in> set (take w (c0 # cs)). 0x80 \<le> byte b))"
  using assms
  by (auto simp: Let_def between_def RuneError_def split: list.splits if_splits)

lemma decodeRune_append:
  assumes "t = [] \<or> byte (hd t) < 0x80"
  shows "decodeRune ((c0 # cs) @ t) = decodeRune (c0 # cs)"
  using assms
  by (cases t) (auto simp: Let_def between_def split: list.splits)

lemma range_str_Cons:
  assumes "decodeRune (c0 # cs) = (c, w)"
  shows "range_str i (c0 # cs) = (i, c) # range_str (i + w) (drop w (c0 # cs))"
  using assms by simp

lemma range_str_append:
  assumes "t = [] \<or> byte (hd t) < 0x80"
  shows "range_str i (s @ t) = range_str i s @ range_str (i + length s) t"
proof (induction i s rule: range_str.induct)
  case (1 i)
  then show ?case by simp
next
  case (2 i c0 cs)
  obtain c w where cw: "decodeRune (c0 # cs) = (c, w)"
    by (cases "decodeRune (c0 # cs)")
  have d: "decodeRune (c0 # cs @ t) = (c, w)"
    using decodeRune_append [OF assms, of c0 cs] cw by simp
  have w: "1 \<le> w \<and> w \<le> Suc (length cs)"
    using decodeRune_width [of "c0 # cs"] cw by simp
  then have dr: "drop w (c0 # cs @ t) = drop w (c0 # cs) @ t"
    by (metis append_Cons drop_append diff_is_0_eq drop0 length_Cons)
  have len: "i + w + length (drop w (c0 # cs)) = i + length (c0 # cs)"
    using w by simp
  have "range_str i ((c0 # cs) @ t) = (i, c) # range_str (i + w) (drop w (c0 # cs) @ t)"
    using range_str_Cons [OF d, of i] dr by simp
  also have "\<dots> = (i, c) # range_str (i + w) (drop w (c0 # cs))
      @ range_str (i + w + length (drop w (c0 # cs))) t"
    using "2.IH" cw by simp
  also have "\<dots> = range_str i (c0 # cs) @ range_str (i + length (c0 # cs)) t"
    unfolding len using range_str_Cons [OF cw, of i] by simp
  finally show ?case .
qed

lemma range_str_index:
  "(j, c) \<in> set (range_str i s) \<Longrightarrow> i \<le> j \<and> j < i + length s"
proof (induction i s rule: range_str.induct)
  case (1 i)
  then show ?case by simp
next
  case (2 i c0 cs)
  obtain r w where cw: "decodeRune (c0 # cs) = (r, w)"
    by (cases "decodeRune (c0 # cs)")
  have w: "1 \<le> w \<and> w \<le> Suc (length cs)"
    using decodeRune_width [of "c0 # cs"] cw by simp
  from "2.prems" have "j = i \<or> (j, c) \<in> set (range_str (i + w) (drop w (c0 # cs)))"
    unfolding range_str_Cons [OF cw] by auto
  then show ?case
  proof
    assume "j = i" then show ?thesis by simp
  next
    assume "(j, c) \<in> set (range_str (i + w) (drop w (c0 # cs)))"
    then have "i + w \<le> j \<and> j < i + w + length (drop w (c0 # cs))"
      using "2.IH" cw by simp
    then show ?thesis using w by auto
  qed
qed


lemma backslash_byte: "backslash = byte CHR 0x5C"
  by (simp add: backslash_def byte_def)

lemma unescape_loop_acc: "unescape_loop u e rs = u @ unescape_loop [] e rs"
proof (induction rs arbitrary: u e)
  case Nil
  then show ?case by simp
next
  case (Cons p rs)
  obtain i c where p: "p = (i, c)" by (cases p)
  show ?case
    using Cons.IH [of "u @ [c]" False] Cons.IH [of u True] Cons.IH [of "[c]" False]
    by (simp add: p)
qed

lemma found_no_panic:
  "j \<le> length keyvalue \<Longrightarrow> \<exists>r. found t k keyvalue j = Inr r"
  by (simp add: found_def slice_from_def)

lemma peek_eq_no_panic:
  "peek_eq keyvalue i = Inr (i + 1 < length keyvalue \<and> keyvalue ! (i + 1) = CHR ''='')"
  by (simp add: peek_eq_def index_str_def)

lemma delim_no_panic:
  assumes "i < length keyvalue"
  shows "\<exists>r. (case peek_eq keyvalue i of Inl p \<Rightarrow> Inl p
            | Inr True \<Rightarrow> found t2 k keyvalue (i + 2)
            | Inr False \<Rightarrow> found t1 k keyvalue (i + 1)) = Inr r"
proof -
  define b where "b = (i + 1 < length keyvalue \<and> keyvalue ! (i + 1) = CHR ''='')"
  have pk: "peek_eq keyvalue i = Inr b"
    by (simp add: peek_eq_no_panic b_def)
  show ?thesis
  proof (cases b)
    case True
    then have "i + 2 \<le> length keyvalue" by (simp add: b_def)
    from found_no_panic [OF this] show ?thesis
      using True by (simp add: pk)
  next
    case False
    from assms have "i + 1 \<le> length keyvalue" by simp
    from found_no_panic [OF this] show ?thesis
      using False by (simp add: pk)
  qed
qed

lemma parseKeyValue_loop_no_panic:
  assumes "\<forall>(j, c) \<in> set rs. j < length keyvalue"
  shows "\<exists>r. parseKeyValue_loop keyvalue k e rs = Inr r"
  using assms
proof (induction rs arbitrary: k e)
  case Nil
  then show ?case by simp
next
  case (Cons p rs)
  obtain i c where p: "p = (i, c)" by (cases p)
  with Cons.prems have i: "i < length keyvalue" by simp
  then have i1: "i + 1 \<le> length keyvalue" by simp
  from Cons.prems have rest: "\<forall>(j, c) \<in> set rs. j < length keyvalue" by simp
  note IH = Cons.IH [OF rest]
  consider (esc) "e" | (bs) "\<not> e" "c = backslash"
    | (colon) "\<not> e" "c \<noteq> backslash" "c = byte CHR '':''"
    | (eq) "\<not> e" "c \<noteq> backslash" "c \<noteq> byte CHR '':''" "c = byte CHR ''=''"
    | (at) "\<not> e" "c \<noteq> backslash" "c \<noteq> byte CHR '':''" "c \<noteq> byte CHR ''=''" "c = byte CHR ''@''"
    | (other) "\<not> e" "c \<noteq> backslash" "c \<noteq> byte CHR '':''" "c \<noteq> byte CHR ''=''" "c \<noteq> byte CHR ''@''"
    by blast
  then show ?case
  proof cases
    case esc
    then show ?thesis using IH [of "k @ [c]" False] by (simp add: p)
  next
    case bs
    then show ?thesis using IH [of k True] by (simp add: p)
  next
    case colon
    then show ?thesis using delim_no_panic [OF i, of kvpJSON k kvpHeader] by (simp add: p)
  next
    case eq
    then show ?thesis using delim_no_panic [OF i, of kvpQuery k kvpBody] by (simp add: p)
  next
    case at
    then show ?thesis using found_no_panic [OF i1, of kvpFile k] by (simp add: p)
  next
    case other
    then show ?thesis using IH [of "k @ [c]" False] by (simp add: p)
  qed
qed

lemma esc_scan_high:
  assumes "hs \<noteq> []" and "\<forall>b \<in> set hs. 0x80 \<le> byte b"
  shows "esc_scan e (hs @ s) = esc_scan False s"
  using assms
proof (induction hs arbitrary: e)
  case Nil
  then show ?case by simp
next
  case (Cons h hs)
  then have h: "0x80 \<le> byte h" by simp
  then have ne: "h \<noteq> CHR 0x5C" "h \<noteq> CHR '':''" "h \<noteq> CHR ''=''" "h \<noteq> CHR ''@''"
    by (auto simp: byte_def)
  show ?case
  proof (cases "hs = []")
    case True
    then show ?thesis using ne by simp
  next
    case False
    then show ?thesis using ne Cons by simp
  qed
qed

lemma parseKeyValue_loop_prefix:
  assumes "esc_scan e pre = Some e'"
  shows "parseKeyValue_loop keyvalue k e (range_str i pre @ rest)
       = parseKeyValue_loop keyvalue (k @ unescape_loop [] e (range_str i pre)) e' rest"
  using assms
proof (induction i pre arbitrary: k e rule: range_str.induct)
  case (1 i)
  then show ?case by simp
next
  case (2 i c0 cs)
  obtain c w where cw: "decodeRune (c0 # cs) = (c, w)"
    by (cases "decodeRune (c0 # cs)")
  note rs = range_str_Cons [OF cw, of i]
  let ?tl = "range_str (i + w) (drop w (c0 # cs))"
  have IH: "\<And>k e. esc_scan e (drop w (c0 # cs)) = Some e' \<Longrightarrow>
      parseKeyValue_loop keyvalue k e (?tl @ rest)
      = parseKeyValue_loop keyvalue (k @ unescape_loop [] e ?tl) e' rest"
    using "2.IH" unfolding cw snd_conv .
  from decodeRune_cases [OF cw] show ?case
  proof
    assume a: "w = 1 \<and> byte c0 < 0x80 \<and> c = byte c0"
    then have dr: "drop w (c0 # cs) = cs" by simp
    have eqs: "c = backslash \<longleftrightarrow> c0 = CHR 0x5C" "c = byte CHR '':'' \<longleftrightarrow> c0 = CHR '':''"
      "c = byte CHR ''='' \<longleftrightarrow> c0 = CHR ''=''" "c = byte CHR ''@'' \<longleftrightarrow> c0 = CHR ''@''"
      unfolding backslash_byte using a by (simp_all only: byte_eq_iff)
    show ?thesis
    proof (cases e)
      case True
      with "2.prems" have "esc_scan False cs = Some e'" by simp
      from IH [unfolded dr, OF this, of "k @ [c]"] show ?thesis
        unfolding rs dr using True unescape_loop_acc [of "[c]" False]
        by simp
    next
      case False
      show ?thesis
      proof (cases "c0 = CHR 0x5C")
        case True
        with "2.prems" False have "esc_scan True cs = Some e'" by simp
        from IH [unfolded dr, OF this, of k] show ?thesis
          unfolding rs dr using False True eqs by simp
      next
        case nb: False
        with "2.prems" False have nd: "c0 \<noteq> CHR '':''" "c0 \<noteq> CHR ''=''" "c0 \<noteq> CHR ''@''"
          and sc: "esc_scan False cs = Some e'"
          by (auto split: if_splits)
        from IH [unfolded dr, OF sc, of "k @ [c]"] show ?thesis
          unfolding rs dr using False nb nd eqs unescape_loop_acc [of "[c]" False]
          by simp
      qed
    qed
  next
    assume a: "1 \<le> w \<and> w \<le> Suc (length cs) \<and> 0x80 \<le> c
        \<and> (\<forall>b \<in> set (take w (c0 # cs)). 0x80 \<le> byte b)"
    then have ne: "take w (c0 # cs) \<noteq> []" by auto
    have "esc_scan e (take w (c0 # cs) @ drop w (c0 # cs)) = esc_scan False (drop w (c0 # cs))"
      using esc_scan_high [OF ne] a by blast
    with "2.prems" have sc: "esc_scan False (drop w (c0 # cs)) = Some e'"
      by (simp del: esc_scan.simps)
    have nc: "c \<noteq> backslash" "c \<noteq> byte CHR '':''" "c \<noteq> byte CHR ''=''" "c \<noteq> byte CHR ''@''"
      using a by (auto simp: byte_def backslash_def)
    from IH [OF sc, of "k @ [c]"] show ?thesis
      unfolding rs using nc unescape_loop_acc [of "[c]" False]
      by simp
  qed
qed

lemma range_str_ascii:
  assumes "byte d < 0x80"
  shows "range_str n (d # post) = (n, byte d) # range_str (n + 1) post"
proof -
  have "decodeRune (d # post) = (byte d, 1)"
    using assms by (simp add: Let_def)
  from range_str_Cons [OF this, of n] show ?thesis by simp
qed

lemma parseKeyValue_at_delim:
  assumes "esc_scan False pre = Some False" and "byte d < 0x80"
  shows "parseKeyValue (pre @ d # post)
       = parseKeyValue_loop (pre @ d # post) (unescape_loop [] False (range_str 0 pre)) False
           ((length pre, byte d) # range_str (length pre + 1) post)"
proof -
  have "range_str 0 (pre @ d # post) = range_str 0 pre @ range_str (0 + length pre) (d # post)"
    by (rule range_str_append) (simp add: assms(2))
  then show ?thesis
    unfolding parseKeyValue_def
    using parseKeyValue_loop_prefix [OF assms(1), of "pre @ d # post" "[]" 0]
      range_str_ascii [OF assms(2), of "length pre" post]
    by simp
qed

lemma peek_eq_at:
  "peek_eq (pre @ d # post) (length pre) = Inr (post \<noteq> [] \<and> hd post = CHR ''='')"
  by (cases post) (simp_all add: peek_eq_def index_str_def nth_append)

lemma found_at1:
  "found t k (pre @ d # post) (Suc (length pre)) = Inr (t, string_of_runes k, unescape post)"
  by (simp add: found_def slice_from_def)

lemma found_at2:
  "found t k (pre @ d # d' # post) (Suc (Suc (length pre))) = Inr (t, string_of_runes k, unescape post)"
  by (simp add: found_def slice_from_def)

lemma classify_colon_eq:
  assumes "esc_scan False pre = Some False"
  shows "parseKeyValue (pre @ CHR '':'' # CHR ''='' # post) = Inr (kvpJSON, unescape pre, unescape post)"
proof -
  have a: "byte CHR '':'' < 0x80" by (simp add: byte_def)
  have ne: "byte CHR '':'' \<noteq> backslash" by (simp add: byte_def backslash_def)
  show ?thesis
    unfolding parseKeyValue_at_delim [OF assms a]
    using ne by (simp add: peek_eq_at found_at2 unescape_def)
qed

lemma classify_colon:
  assumes "esc_scan False pre = Some False" and "post = [] \<or> hd post \<noteq> CHR ''=''"
  shows "parseKeyValue (pre @ CHR '':'' # post) = Inr (kvpHeader, unescape pre, unescape post)"
proof -
  have a: "byte CHR '':'' < 0x80" by (simp add: byte_def)
  have ne: "byte CHR '':'' \<noteq> backslash" by (simp add: byte_def backslash_def)
  have p: "(post \<noteq> [] \<and> hd post = CHR ''='') = False" using assms(2) by auto
  show ?thesis
    unfolding parseKeyValue_at_delim [OF assms(1) a]
    using ne by (simp add: peek_eq_at p found_at1 unescape_def)
qed

lemma classify_eq_eq:
  assumes "esc_scan False pre = Some False"
  shows "parseKeyValue (pre @ CHR ''='' # CHR ''='' # post) = Inr (kvpQuery, unescape pre, unescape post)"
proof -
  have a: "byte CHR ''='' < 0x80" by (simp add: byte_def)
  have ne: "byte CHR ''='' \<noteq> backslash" "byte CHR ''='' \<noteq> byte CHR '':''"
    by (simp_all add: byte_def backslash_def)
  show ?thesis
    unfolding parseKeyValue_at_delim [OF assms a]
    using ne by (simp add: peek_eq_at found_at2 unescape_def)
qed

lemma classify_eq:
  assumes "esc_scan False pre = Some False" and "post = [] \<or> hd post \<noteq> CHR ''=''"
  shows "parseKeyValue (pre @ CHR ''='' # post) = Inr (kvpBody, unescape pre, unescape post)"
proof -
  have a: "byte CHR ''='' < 0x80" by (simp add: byte_def)
  have ne: "byte CHR ''='' \<noteq> backslash" "byte CHR ''='' \<noteq> byte CHR '':''"
    by (simp_all add: byte_def backslash_def)
  have p: "(post \<noteq> [] \<and> hd post = CHR ''='') = False" using assms(2) by auto
  show ?thesis
    unfolding parseKeyValue_at_delim [OF assms(1) a]
    using ne by (simp add: peek_eq_at p found_at1 unescape_def)
qed

lemma classify_at:
  assumes "esc_scan False pre = Some False"
  shows "parseKeyValue (pre @ CHR ''@'' # post) = Inr (kvpFile, unescape pre, unescape post)"
proof -
  have a: "byte CHR ''@'' < 0x80" by (simp add: byte_def)
  have ne: "byte CHR ''@'' \<noteq> backslash" "byte CHR ''@'' \<noteq> byte CHR '':''"
    "byte CHR ''@'' \<noteq> byte CHR ''=''"
    by (simp_all add: byte_def backslash_def)
  show ?thesis
    unfolding parseKeyValue_at_delim [OF assms a]
    using ne by (simp add: found_at1 unescape_def)
qed

lemma classify_unknown:
  assumes "esc_scan False s = Some e'"
  shows "parseKeyValue s = Inr (kvpUnknown, [], [])"
  unfolding parseKeyValue_def
  using parseKeyValue_loop_prefix [OF assms, of s "[]" 0 "[]"] by simp

lemma parseKeyValue_total: "\<exists>r. parseKeyValue s = Inr r"
  unfolding parseKeyValue_def
  by (rule parseKeyValue_loop_no_panic) (use range_str_index [of _ _ 0 s] in auto)

lemma esc_scan_None:
  assumes "esc_scan e s = None"
  shows "\<exists>pre d post. s = pre @ d # post \<and> esc_scan e pre = Some False
           \<and> (d = CHR '':'' \<or> d = CHR ''='' \<or> d = CHR ''@'')"
  using assms
proof (induction s arbitrary: e)
  case Nil
  then show ?case by simp
next
  case (Cons c cs)
  show ?case
  proof (cases "e \<or> c = CHR 0x5C \<or> \<not> (c = CHR '':'' \<or> c = CHR ''='' \<or> c = CHR ''@'')")
    case True
    then obtain e1 where e1: "esc_scan e (c # cs) = esc_scan e1 cs"
      and step: "\<And>pre. esc_scan e (c # pre) = esc_scan e1 pre"
      by (cases e; cases "c = CHR 0x5C") auto
    with Cons.prems have "esc_scan e1 cs = None" by simp
    from Cons.IH [OF this] obtain pre d post where
      "cs = pre @ d # post" "esc_scan e1 pre = Some False"
      "d = CHR '':'' \<or> d = CHR ''='' \<or> d = CHR ''@''" by blast
    then have "c # cs = (c # pre) @ d # post \<and> esc_scan e (c # pre) = Some False
        \<and> (d = CHR '':'' \<or> d = CHR ''='' \<or> d = CHR ''@'')"
      using step by simp
    then show ?thesis by blast
  next
    case False
    then have "c # cs = [] @ c # cs \<and> esc_scan e [] = Some False
        \<and> (c = CHR '':'' \<or> c = CHR ''='' \<or> c = CHR ''@'')"
      by simp
    then show ?thesis by blast
  qed
qed

lemma classify_known:
  assumes "esc_scan False s = None"
  shows "\<exists>t k v. parseKeyValue s = Inr (t, k, v) \<and> t \<noteq> kvpUnknown"
proof -
  from esc_scan_None [OF assms] obtain pre d post where
    s: "s = pre @ d # post" and pre: "esc_scan False pre = Some False"
    and d: "d = CHR '':'' \<or> d = CHR ''='' \<or> d = CHR ''@''" by blast
  show ?thesis
  proof (cases "post = [] \<or> hd post \<noteq> CHR ''=''")
    case True
    then show ?thesis
      using d classify_colon [OF pre True] classify_eq [OF pre True] classify_at [OF pre, of post]
      unfolding s by auto
  next
    case False
    then obtain post' where "post = CHR ''='' # post'" by (cases post) auto
    then show ?thesis
      using d classify_colon_eq [OF pre, of post'] classify_eq_eq [OF pre, of post']
        classify_at [OF pre, of post]
      unfolding s by auto
  qed
qed

lemma char_of_byte: "char_of (byte c) = c"
  by (simp add: byte_def)

lemma byte_char_of: "n < 256 \<Longrightarrow> byte (char_of n) = n"
  by (simp add: byte_def)

lemma enc_dec1:
  assumes "byte c0 < 0x80"
  shows "encodeRune (byte c0) = [c0]"
  using assms by (simp add: encodeRune_def char_of_byte)

lemma split2:
  assumes "b < (64::nat)"
  shows "(a * 64 + b) div 64 = a" "(a * 64 + b) mod 64 = b"
  using assms by simp_all

lemma split3:
  assumes "b < (64::nat)" "d < (64::nat)"
  shows "(a * 4096 + b * 64 + d) div 4096 = a" "((a * 4096 + b * 64 + d) div 64) mod 64 = b"
    "(a * 4096 + b * 64 + d) mod 64 = d"
proof -
  have e: "a * 4096 + b * 64 + d = (a * 64 + b) * 64 + d" by simp
  have l: "b * 64 + d < 4096" using assms by simp
  show "(a * 4096 + b * 64 + d) div 4096 = a"
    using l by (simp add: add.assoc)
  have "((a * 64 + b) * 64 + d) div 64 = a * 64 + b"
    by (rule split2(1) [OF assms(2)])
  then have "(a * 4096 + b * 64 + d) div 64 = a * 64 + b"
    by (simp only: e)
  then show "((a * 4096 + b * 64 + d) div 64) mod 64 = b"
    using split2(2) [OF assms(1), of a] by (simp only:)
  have "((a * 64 + b) * 64 + d) mod 64 = d"
    by (rule split2(2) [OF assms(2)])
  then show "(a * 4096 + b * 64 + d) mod 64 = d"
    by (simp only: e)
qed

lemma split4:
  assumes "b < (64::nat)" "d < (64::nat)" "f < (64::nat)"
  shows "(a * 262144 + b * 4096 + d * 64 + f) div 262144 = a"
    "((a * 262144 + b * 4096 + d * 64 + f) div 4096) mod 64 = b"
    "((a * 262144 + b * 4096 + d * 64 + f) div 64) mod 64 = d"
    "(a * 262144 + b * 4096 + d * 64 + f) mod 64 = f"
proof -
  have e: "a * 262144 + b * 4096 + d * 64 + f = (a * 4096 + b * 64 + d) * 64 + f" by simp
  have l2: "b * 4096 + d * 64 + f < 262144" using assms by simp
  show "(a * 262144 + b * 4096 + d * 64 + f) div 262144 = a"
    using l2 by (simp add: add.assoc)
  have "((a * 4096 + b * 64 + d) * 64 + f) div 64 = a * 4096 + b * 64 + d"
    by (rule split2(1) [OF assms(3)])
  then have q: "(a * 262144 + b * 4096 + d * 64 + f) div 64 = a * 4096 + b * 64 + d"
    by (simp only: e)
  show "((a * 262144 + b * 4096 + d * 64 + f) div 64) mod 64 = d"
    using split3(3) [OF assms(1,2), of a] by (simp only: q)
  have "(a * 262144 + b * 4096 + d * 64 + f) div 4096
      = ((a * 262144 + b * 4096 + d * 64 + f) div 64) div 64"
    by (simp add: div_mult2_eq [symmetric])
  then show "((a * 262144 + b * 4096 + d * 64 + f) div 4096) mod 64 = b"
    using split3(2) [OF assms(1,2), of a] by (simp only: q)
  have "((a * 4096 + b * 64 + d) * 64 + f) mod 64 = f"
    by (rule split2(2) [OF assms(3)])
  then show "(a * 262144 + b * 4096 + d * 64 + f) mod 64 = f"
    by (simp only: e)
qed

lemma enc_dec2:
  assumes "0xC2 \<le> byte c0" "byte c0 \<le> 0xDF" "between 0x80 0xBF c1"
  shows "encodeRune ((byte c0 - 0xC0) * 64 + (byte c1 - 0x80)) = [c0, c1]"
proof -
  define a where "a = byte c0 - 0xC0"
  define b where "b = byte c1 - 0x80"
  have a: "byte c0 = 0xC0 + a" "2 \<le> a" "a < 32"
    using assms(1,2) unfolding a_def by arith+
  have b: "byte c1 = 0x80 + b" "b < 64"
    using assms(3) unfolding b_def between_def by arith+
  have c0: "char_of (0xC0 + a) = c0" and c1: "char_of (0x80 + b) = c1"
    using char_of_byte [of c0] char_of_byte [of c1] a(1) b(1) by simp_all
  have rng: "\<not> a * 64 + b < 0x80" "a * 64 + b < 0x800"
    using a(2,3) b(2) by simp_all
  have "encodeRune (a * 64 + b) = [char_of (0xC0 + a), char_of (0x80 + b)]"
    unfolding encodeRune_def using rng split2 [OF b(2), of a] by simp
  then show ?thesis
    unfolding a_def [symmetric] b_def [symmetric] c0 c1 .
qed

lemma enc_dec3:
  assumes "0xE0 \<le> byte c0" "byte c0 \<le> 0xEF"
    "between (if byte c0 = 0xE0 then 0xA0 else 0x80) (if byte c0 = 0xED then 0x9F else 0xBF) c1"
    "between 0x80 0xBF c2"
  shows "encodeRune ((byte c0 - 0xE0) * 4096 + (byte c1 - 0x80) * 64 + (byte c2 - 0x80))
       = [c0, c1, c2]"
proof -
  define a where "a = byte c0 - 0xE0"
  define b where "b = byte c1 - 0x80"
  define d where "d = byte c2 - 0x80"
  have a: "byte c0 = 0xE0 + a" "a < 16"
    using assms(1,2) unfolding a_def by arith+
  have b0: "128 \<le> byte c1 \<and> byte c1 \<le> 191" "byte c0 = 0xE0 \<Longrightarrow> 0xA0 \<le> byte c1"
    "byte c0 = 0xED \<Longrightarrow> byte c1 \<le> 0x9F"
    using assms(3) unfolding between_def by (auto split: if_splits)
  have b: "byte c1 = 0x80 + b" "b < 64"
    using b0(1) unfolding b_def by arith+
  have b': "a = 0 \<Longrightarrow> 32 \<le> b" "a = 13 \<Longrightarrow> b < 32"
    using b0(2,3) a(1) b(1) by simp_all
  have d: "byte c2 = 0x80 + d" "d < 64"
    using assms(4) unfolding d_def between_def by arith+
  have cs: "char_of (0xE0 + a) = c0" "char_of (0x80 + b) = c1" "char_of (0x80 + d) = c2"
    using char_of_byte [of c0] char_of_byte [of c1] char_of_byte [of c2] a(1) b(1) d(1)
    by simp_all
  define r where "r = a * 4096 + b * 64 + d"
  note dm = split3 [OF b(2) d(2), of a, folded r_def]
  have "0x800 \<le> r"
  proof (cases "a = 0")
    case True
    then show ?thesis using b'(1) unfolding r_def by simp
  next
    case False
    then have "1 * 4096 \<le> a * 4096" by simp
    then show ?thesis unfolding r_def by simp
  qed
  moreover have "r < 0x10000"
  proof -
    have "a * 4096 \<le> 15 * 4096" using a(2) by simp
    then show ?thesis using b(2) d(2) unfolding r_def by simp
  qed
  moreover have "\<not> (0xD800 \<le> r \<and> r \<le> 0xDFFF)"
  proof
    assume s: "0xD800 \<le> r \<and> r \<le> 0xDFFF"
    consider "a \<le> 12" | "a = 13" | "14 \<le> a" by arith
    then show False
    proof cases
      case 1
      then have "a * 4096 \<le> 12 * 4096" by simp
      then show False using s b(2) d(2) unfolding r_def by simp
    next
      case 2
      then show False using s b'(2) d(2) unfolding r_def by simp
    next
      case 3
      then have "14 * 4096 \<le> a * 4096" by simp
      then show False using s unfolding r_def by simp
    qed
  qed
  ultimately have c: "(r < 0x80) = False" "(r < 0x800) = False" "(r < 0x10000) = True"
    "(0x10FFFF < r \<or> 0xD800 \<le> r \<and> r \<le> 0xDFFF) = False"
    by simp_all
  have "encodeRune r = [char_of (0xE0 + a), char_of (0x80 + b), char_of (0x80 + d)]"
    unfolding encodeRune_def encode3_def c dm by simp
  then show ?thesis
    unfolding a_def [symmetric] b_def [symmetric] d_def [symmetric] r_def [symmetric] cs .
qed

lemma enc_dec4:
  assumes "0xF0 \<le> byte c0" "byte c0 \<le> 0xF4"
    "between (if byte c0 = 0xF0 then 0x90 else 0x80) (if byte c0 = 0xF4 then 0x8F else 0xBF) c1"
    "between 0x80 0xBF c2" "between 0x80 0xBF c3"
  shows "encodeRune ((byte c0 - 0xF0) * 262144 + (byte c1 - 0x80) * 4096
                     + (byte c2 - 0x80) * 64 + (byte c3 - 0x80))
       = [c0, c1, c2, c3]"
proof -
  define a where "a = byte c0 - 0xF0"
  define b where "b = byte c1 - 0x80"
  define d where "d = byte c2 - 0x80"
  define f where "f = byte c3 - 0x80"
  have a: "byte c0 = 0xF0 + a" "a \<le> 4"
    using assms(1,2) unfolding a_def by arith+
  have b0: "128 \<le> byte c1 \<and> byte c1 \<le> 191" "byte c0 = 0xF0 \<Longrightarrow> 0x90 \<le> byte c1"
    "byte c0 = 0xF4 \<Longrightarrow> byte c1 \<le> 0x8F"
    using assms(3) unfolding between_def by (auto split: if_splits)
  have b: "byte c1 = 0x80 + b" "b < 64"
    using b0(1) unfolding b_def by arith+
  have b': "a = 0 \<Longrightarrow> 16 \<le> b" "a = 4 \<Longrightarrow> b < 16"
    using b0(2,3) a(1) b(1) by simp_all
  have d: "byte c2 = 0x80 + d" "d < 64"
    using assms(4) unfolding d_def between_def by arith+
  have f: "byte c3 = 0x80 + f" "f < 64"
    using assms(5) unfolding f_def between_def by arith+
  have cs: "char_of (0xF0 + a) = c0" "char_of (0x80 + b) = c1" "char_of (0x80 + d) = c2"
    "char_of (0x80 + f) = c3"
    using char_of_byte [of c0] char_of_byte [of c1] char_of_byte [of c2] char_of_byte [of c3]
      a(1) b(1) d(1) f(1)
    by simp_all
  define r where "r = a * 262144 + b * 4096 + d * 64 + f"
  note dm = split4 [OF b(2) d(2) f(2), of a, folded r_def]
  have lo: "0x10000 \<le> r"
  proof (cases "a = 0")
    case True
    then have "16 * 4096 \<le> b * 4096" using b'(1) by simp
    then show ?thesis unfolding r_def by simp
  next
    case False
    then have "1 * 262144 \<le> a * 262144" by simp
    then show ?thesis unfolding r_def by simp
  qed
  have hi: "r \<le> 0x10FFFF"
  proof (cases "a = 4")
    case True
    then have "b * 4096 \<le> 15 * 4096" using b'(2) by simp
    then show ?thesis using True d(2) f(2) unfolding r_def by simp
  next
    case False
    then have "a * 262144 \<le> 3 * 262144" using a(2) by simp
    moreover have "b * 4096 \<le> 63 * 4096" using b(2) by simp
    ultimately show ?thesis using d(2) f(2) unfolding r_def by simp
  qed
  from lo hi have c: "(r < 0x80) = False" "(r < 0x800) = False" "(r < 0x10000) = False"
    "(0x10FFFF < r \<or> 0xD800 \<le> r \<and> r \<le> 0xDFFF) = False"
    by simp_all
  have "encodeRune r = [char_of (0xF0 + a), char_of (0x80 + b), char_of (0x80 + d),
      char_of (0x80 + f)]"
    unfolding encodeRune_def c dm by simp
  then show ?thesis
    unfolding a_def [symmetric] b_def [symmetric] d_def [symmetric] f_def [symmetric]
      r_def [symmetric] cs .
qed

lemma valid1: "(n::nat) < 0x80 \<Longrightarrow> valid_utf8 (char_of n # s) = valid_utf8 s"
  by (simp add: byte_char_of Let_def)

lemma valid2:
  assumes "0xC2 \<le> (l::nat)" "l \<le> 0xDF" "(t::nat) < 64"
  shows "valid_utf8 (char_of l # char_of (0x80 + t) # s) = valid_utf8 s"
  using assms by (simp add: byte_char_of between_def Let_def)

lemma valid3:
  assumes "(a::nat) < 16" "(t1::nat) < 64" "a = 0 \<Longrightarrow> 32 \<le> t1" "a = 13 \<Longrightarrow> t1 < 32" "(t2::nat) < 64"
  shows "valid_utf8 (char_of (0xE0 + a) # char_of (0x80 + t1) # char_of (0x80 + t2) # s)
       = valid_utf8 s"
proof -
  have bs: "byte (char_of (0xE0 + a)) = 0xE0 + a" "byte (char_of (0x80 + t1)) = 0x80 + t1"
    "byte (char_of (0x80 + t2)) = 0x80 + t2"
    using assms(1,2,5) by (simp_all add: byte_char_of)
  consider "a = 0" | "a = 13" | "a \<noteq> 0" "a \<noteq> 13" by blast
  then show ?thesis
  proof cases
    case 1
    then show ?thesis using assms(2,3,5) bs by (simp add: between_def Let_def)
  next
    case 2
    then show ?thesis using assms(2,4,5) bs by (simp add: between_def Let_def)
  next
    case 3
    then show ?thesis using assms(1,2,5) bs by (auto simp: between_def Let_def)
  qed
qed

lemma valid4:
  assumes "(a::nat) \<le> 4" "(t1::nat) < 64" "a = 0 \<Longrightarrow> 16 \<le> t1" "a = 4 \<Longrightarrow> t1 < 16" "(t2::nat) < 64" "(t3::nat) < 64"
  shows "valid_utf8 (char_of (0xF0 + a) # char_of (0x80 + t1) # char_of (0x80 + t2)
                     # char_of (0x80 + t3) # s) = valid_utf8 s"
proof -
  have bs: "byte (char_of (0xF0 + a)) = 0xF0 + a" "byte (char_of (0x80 + t1)) = 0x80 + t1"
    "byte (char_of (0x80 + t2)) = 0x80 + t2" "byte (char_of (0x80 + t3)) = 0x80 + t3"
    using assms(1,2,5,6) by (simp_all add: byte_char_of)
  consider "a = 0" | "a = 4" | "a \<noteq> 0" "a \<noteq> 4" by blast
  then show ?thesis
  proof cases
    case 1
    then show ?thesis using assms(2,3,5,6) bs by (simp add: between_def Let_def)
  next
    case 2
    then show ?thesis using assms(2,4,5,6) bs by (simp add: between_def Let_def)
  next
    case 3
    then show ?thesis using assms(1,2,5,6) bs by (auto simp: between_def Let_def)
  qed
qed

lemma valid_encode3:
  assumes "0x800 \<le> r" "r < 0x10000" "\<not> (0xD800 \<le> r \<and> r \<le> 0xDFFF)"
  shows "valid_utf8 (encode3 r @ s) = valid_utf8 s"
proof -
  have a: "r div 4096 < 16" using assms(2) by simp
  have z: "r div 4096 = 0 \<Longrightarrow> 32 \<le> (r div 64) mod 64"
  proof -
    assume "r div 4096 = 0"
    then have "r < 4096" by simp
    then have "r div 64 < 64" by simp
    moreover have "32 \<le> r div 64" using assms(1) by simp
    ultimately show ?thesis by simp
  qed
  have d: "r div 4096 = 13 \<Longrightarrow> (r div 64) mod 64 < 32"
  proof -
    assume h: "r div 4096 = 13"
    then have rng: "13 * 4096 \<le> r \<and> r < 14 * 4096" by arith
    with assms(3) have "r < 0xD800" by simp
    then have u: "r div 64 < 864" by simp
    have "832 \<le> r div 64" using rng by arith
    then obtain k where k: "r div 64 = 832 + k" using le_Suc_ex by blast
    with u have "k < 32" by simp
    then show ?thesis unfolding k by arith
  qed
  show ?thesis
    unfolding encode3_def using valid3 [OF a _ z d, of "r mod 64" s] by simp
qed


lemma valid_encodeRune: "valid_utf8 (encodeRune r @ s) = valid_utf8 s"
proof -
  consider (one) "r < 0x80" | (two) "0x80 \<le> r" "r < 0x800"
    | (bad) "0x800 \<le> r" "0x10FFFF < r \<or> (0xD800 \<le> r \<and> r \<le> 0xDFFF)"
    | (three) "0x800 \<le> r" "r < 0x10000" "\<not> (0xD800 \<le> r \<and> r \<le> 0xDFFF)"
    | (four) "0x10000 \<le> r" "r \<le> 0x10FFFF"
    by linarith
  then show ?thesis
  proof cases
    case one
    then show ?thesis by (simp add: encodeRune_def valid1 del: valid_utf8.simps)
  next
    case two
    have "2 \<le> r div 64" "r div 64 < 32" using two by arith+
    then have "0xC2 \<le> 0xC0 + r div 64" "0xC0 + r div 64 \<le> 0xDF" by simp_all
    from valid2 [OF this, of "r mod 64" s] show ?thesis
      using two by (simp add: encodeRune_def del: valid_utf8.simps)
  next
    case bad
    have "valid_utf8 (encode3 RuneError @ s) = valid_utf8 s"
      by (rule valid_encode3) (simp_all add: RuneError_def)
    then show ?thesis using bad by (auto simp: encodeRune_def simp del: valid_utf8.simps)
  next
    case three
    from valid_encode3 [OF this] show ?thesis
      using three by (auto simp: encodeRune_def simp del: valid_utf8.simps)
  next
    case four
    have a: "r div 262144 \<le> 4" using four(2) by arith
    have z: "r div 262144 = 0 \<Longrightarrow> 16 \<le> (r div 4096) mod 64"
    proof -
      assume "r div 262144 = 0"
      then have "r < 262144" by simp
      then have "r div 4096 < 64" by simp
      moreover have "16 \<le> r div 4096" using four(1) by arith
      ultimately show ?thesis by simp
    qed
    have d: "r div 262144 = 4 \<Longrightarrow> (r div 4096) mod 64 < 16"
    proof -
      assume "r div 262144 = 4"
      then have "4 * 262144 \<le> r" by arith
      then have "256 \<le> r div 4096" by arith
      then obtain k where k: "r div 4096 = 256 + k" using le_Suc_ex by blast
      have "r div 4096 < 272" using four(2) by arith
      with k have "k < 16" by simp
      then show ?thesis unfolding k by arith
    qed
    from valid4 [OF a _ z d, of "(r div 64) mod 64" "r mod 64" s] show ?thesis
      using four by (simp add: encodeRune_def del: valid_utf8.simps)
  qed
qed

lemma valid_string_of_runes: "valid_utf8 (string_of_runes u)"
  unfolding string_of_runes_def
  by (induction u) (simp_all add: valid_encodeRune del: valid_utf8.simps(2))

lemma high_encodeRune:
  assumes "0x80 \<le> r"
  shows "\<forall>b \<in> set (encodeRune r). 0x80 \<le> byte b"
proof -
  have e3: "\<And>x. x < 0x10000 \<Longrightarrow> \<forall>b \<in> set (encode3 x). 0x80 \<le> byte b"
  proof -
    fix x :: nat assume "x < 0x10000"
    then have "x div 4096 < 16" by simp
    then show "\<forall>b \<in> set (encode3 x). 0x80 \<le> byte b"
      by (simp add: encode3_def byte_char_of)
  qed
  consider (two) "r < 0x800"
    | (bad) "0x800 \<le> r" "0x10FFFF < r \<or> (0xD800 \<le> r \<and> r \<le> 0xDFFF)"
    | (three) "0x800 \<le> r" "r < 0x10000" "\<not> (0xD800 \<le> r \<and> r \<le> 0xDFFF)"
    | (four) "0x10000 \<le> r" "r \<le> 0x10FFFF"
    by linarith
  then show ?thesis
  proof cases
    case two
    then have "r div 64 < 32" by simp
    then show ?thesis using assms two by (simp add: encodeRune_def byte_char_of)
  next
    case bad
    then show ?thesis using e3 [of RuneError]
      by (auto simp: encodeRune_def RuneError_def)
  next
    case three
    then show ?thesis using e3 [of r] by (auto simp: encodeRune_def)
  next
    case four
    then have "r div 262144 \<le> 4" by arith
    then show ?thesis using four by (simp add: encodeRune_def byte_char_of)
  qed
qed

lemma encodeRune_no_backslash:
  assumes "r \<noteq> backslash"
  shows "CHR 0x5C \<notin> set (encodeRune r)"
proof (cases "r < 0x80")
  case True
  then have "byte (char_of r) = r" by (simp add: byte_char_of)
  then have "char_of r \<noteq> CHR 0x5C" using assms by (auto simp: backslash_byte)
  then show ?thesis using True by (simp add: encodeRune_def)
next
  case False
  then have "\<forall>b \<in> set (encodeRune r). 0x80 \<le> byte b"
    using high_encodeRune [of r] by simp
  moreover have "byte CHR 0x5C < 0x80" by (simp add: byte_def)
  ultimately show ?thesis by fastforce
qed

lemma valid_one:
  "byte c0 < 0x80 \<Longrightarrow> valid_utf8 (c0 # cs) = valid_utf8 cs"
  by (simp add: Let_def)

lemma valid_two:
  "0xC2 \<le> byte c0 \<Longrightarrow> byte c0 \<le> 0xDF \<Longrightarrow>
   valid_utf8 (c0 # cs) = (case cs of c1 # r \<Rightarrow> between 0x80 0xBF c1 \<and> valid_utf8 r | _ \<Rightarrow> False)"
  by (simp add: Let_def)

lemma valid_three:
  assumes "0xE0 \<le> byte c0" "byte c0 \<le> 0xEF"
  shows "valid_utf8 (c0 # cs) =
    (case cs of c1 # c2 # r \<Rightarrow>
       between (if byte c0 = 0xE0 then 0xA0 else 0x80) (if byte c0 = 0xED then 0x9F else 0xBF) c1
       \<and> between 0x80 0xBF c2 \<and> valid_utf8 r
     | _ \<Rightarrow> False)"
proof -
  consider "byte c0 = 0xE0" | "byte c0 = 0xED" | "byte c0 \<noteq> 0xE0" "byte c0 \<noteq> 0xED" by blast
  then show ?thesis
  proof cases
    case 1
    then show ?thesis by (simp add: Let_def)
  next
    case 2
    then show ?thesis by (simp add: Let_def)
  next
    case 3
    then have "(0xE1 \<le> byte c0 \<and> byte c0 \<le> 0xEC) \<or> byte c0 = 0xEE \<or> byte c0 = 0xEF"
      using assms by arith
    then show ?thesis using 3 assms by (simp add: Let_def)
  qed
qed


lemma valid_four:
  assumes "0xF0 \<le> byte c0" "byte c0 \<le> 0xF4"
  shows "valid_utf8 (c0 # cs) =
    (case cs of c1 # c2 # c3 # r \<Rightarrow>
       between (if byte c0 = 0xF0 then 0x90 else 0x80) (if byte c0 = 0xF4 then 0x8F else 0xBF) c1
       \<and> between 0x80 0xBF c2 \<and> between 0x80 0xBF c3 \<and> valid_utf8 r
     | _ \<Rightarrow> False)"
proof -
  consider "byte c0 = 0xF0" | "byte c0 = 0xF4" | "byte c0 \<noteq> 0xF0" "byte c0 \<noteq> 0xF4" by blast
  then show ?thesis
  proof cases
    case 1
    then show ?thesis by (simp add: Let_def)
  next
    case 2
    then show ?thesis by (simp add: Let_def)
  next
    case 3
    then have "0xF1 \<le> byte c0 \<and> byte c0 \<le> 0xF3"
      using assms by arith
    then show ?thesis using 3 assms by (simp add: Let_def)
  qed
qed

lemma valid_bad:
  assumes "0x80 \<le> byte c0" "byte c0 < 0xC2 \<or> 0xF4 < byte c0"
  shows "\<not> valid_utf8 (c0 # cs)"
  using assms by (auto simp: Let_def)

lemma dec_one: "byte c0 < 0x80 \<Longrightarrow> decodeRune (c0 # cs) = (byte c0, 1)"
  by (simp add: Let_def)

lemma dec_two:
  "0xC2 \<le> byte c0 \<Longrightarrow> byte c0 \<le> 0xDF \<Longrightarrow>
   decodeRune (c0 # cs) =
     (case cs of
        c1 # _ \<Rightarrow>
          if between 0x80 0xBF c1
          then ((byte c0 - 0xC0) * 64 + (byte c1 - 0x80), 2)
          else (RuneError, 1)
      | _ \<Rightarrow> (RuneError, 1))"
  by (simp add: Let_def)

lemma dec_three:
  "0xE0 \<le> byte c0 \<Longrightarrow> byte c0 \<le> 0xEF \<Longrightarrow>
   decodeRune (c0 # cs) =
     (case cs of
        c1 # c2 # _ \<Rightarrow>
          if between (if byte c0 = 0xE0 then 0xA0 else 0x80)
               (if byte c0 = 0xED then 0x9F else 0xBF) c1
             \<and> between 0x80 0xBF c2
          then ((byte c0 - 0xE0) * 4096 + (byte c1 - 0x80) * 64 + (byte c2 - 0x80), 3)
          else (RuneError, 1)
      | _ \<Rightarrow> (RuneError, 1))"
  by (simp add: Let_def)

lemma dec_four:
  "0xF0 \<le> byte c0 \<Longrightarrow> byte c0 \<le> 0xF4 \<Longrightarrow>
   decodeRune (c0 # cs) =
     (case cs of
        c1 # c2 # c3 # _ \<Rightarrow>
          if between (if byte c0 = 0xF0 then 0x90 else 0x80)
               (if byte c0 = 0xF4 then 0x8F else 0xBF) c1
             \<and> between 0x80 0xBF c2 \<and> between 0x80 0xBF c3
          then ((byte c0 - 0xF0) * 262144 + (byte c1 - 0x80) * 4096
                + (byte c2 - 0x80) * 64 + (byte c3 - 0x80), 4)
          else (RuneError, 1)
      | _ \<Rightarrow> (RuneError, 1))"
  by (simp add: Let_def)

lemma valid_step:
  assumes "valid_utf8 (c0 # cs)" and "decodeRune (c0 # cs) = (c, w)"
  shows "encodeRune c = take w (c0 # cs) \<and> valid_utf8 (drop w (c0 # cs))"
proof -
  consider (one) "byte c0 < 0x80" | (two) "0xC2 \<le> byte c0" "byte c0 \<le> 0xDF"
    | (three) "0xE0 \<le> byte c0" "byte c0 \<le> 0xEF"
    | (four) "0xF0 \<le> byte c0" "byte c0 \<le> 0xF4"
    | (bad) "0x80 \<le> byte c0" "byte c0 < 0xC2 \<or> 0xF4 < byte c0"
    by linarith
  then show ?thesis
  proof cases
    case one
    from assms(2) have "c = byte c0" "w = 1" unfolding dec_one [OF one] by simp_all
    then show ?thesis using assms(1) enc_dec1 [OF one] unfolding valid_one [OF one] by simp
  next
    case two
    from assms(1) obtain c1 r where cs: "cs = c1 # r" and b: "between 0x80 0xBF c1"
      and v: "valid_utf8 r"
      unfolding valid_two [OF two] by (auto split: list.splits)
    from assms(2) b have "c = (byte c0 - 0xC0) * 64 + (byte c1 - 0x80)" "w = 2"
      unfolding dec_two [OF two] cs by simp_all
    then show ?thesis using enc_dec2 [OF two b] v by (simp add: cs)
  next
    case three
    from assms(1) obtain c1 c2 r where cs: "cs = c1 # c2 # r"
      and b: "between (if byte c0 = 0xE0 then 0xA0 else 0x80)
                (if byte c0 = 0xED then 0x9F else 0xBF) c1" "between 0x80 0xBF c2"
      and v: "valid_utf8 r"
      unfolding valid_three [OF three] by (auto split: list.splits)
    from assms(2) b have
      "c = (byte c0 - 0xE0) * 4096 + (byte c1 - 0x80) * 64 + (byte c2 - 0x80)" "w = 3"
      unfolding dec_three [OF three] cs by simp_all
    then show ?thesis using enc_dec3 [OF three b] v by (simp add: cs)
  next
    case four
    from assms(1) obtain c1 c2 c3 r where cs: "cs = c1 # c2 # c3 # r"
      and b: "between (if byte c0 = 0xF0 then 0x90 else 0x80)
                (if byte c0 = 0xF4 then 0x8F else 0xBF) c1" "between 0x80 0xBF c2"
        "between 0x80 0xBF c3"
      and v: "valid_utf8 r"
      unfolding valid_four [OF four] by (auto split: list.splits)
    from assms(2) b have
      "c = (byte c0 - 0xF0) * 262144 + (byte c1 - 0x80) * 4096
           + (byte c2 - 0x80) * 64 + (byte c3 - 0x80)" "w = 4"
      unfolding dec_four [OF four] cs by simp_all
    then show ?thesis using enc_dec4 [OF four b] v by (simp add: cs)
  next
    case bad
    with assms(1) valid_bad [OF bad] show ?thesis by simp
  qed
qed

lemma string_of_runes_range_str:
  "valid_utf8 s \<Longrightarrow> string_of_runes (map snd (range_str i s)) = s"
proof (induction i s rule: range_str.induct)
  case (1 i)
  then show ?case by (simp add: string_of_runes_def)
next
  case (2 i c0 cs)
  obtain c w where cw: "decodeRune (c0 # cs) = (c, w)"
    by (cases "decodeRune (c0 # cs)")
  from valid_step [OF "2.prems" cw]
  have e: "encodeRune c = take w (c0 # cs)" and v: "valid_utf8 (drop w (c0 # cs))"
    by simp_all
  have "string_of_runes (map snd (range_str (i + w) (drop w (c0 # cs)))) = drop w (c0 # cs)"
    using v by (rule "2.IH" [unfolded cw snd_conv])
  then have "string_of_runes (map snd (range_str i (c0 # cs)))
      = take w (c0 # cs) @ drop w (c0 # cs)"
    unfolding range_str_Cons [OF cw] by (simp add: string_of_runes_def e)
  then show ?case by (simp only: append_take_drop_id)
qed

lemma range_str_no_backslash:
  "CHR 0x5C \<notin> set s \<Longrightarrow> \<forall>(j, c) \<in> set (range_str i s). c \<noteq> backslash"
proof (induction i s rule: range_str.induct)
  case (1 i)
  then show ?case by simp
next
  case (2 i c0 cs)
  obtain c w where cw: "decodeRune (c0 # cs) = (c, w)"
    by (cases "decodeRune (c0 # cs)")
  have "set (drop w (c0 # cs)) \<subseteq> set (c0 # cs)" by (rule set_drop_subset)
  with "2.prems" have "CHR 0x5C \<notin> set (drop w (c0 # cs))" by blast
  then have tl: "\<forall>(j, c) \<in> set (range_str (i + w) (drop w (c0 # cs))). c \<noteq> backslash"
    by (rule "2.IH" [unfolded cw snd_conv])
  have "c \<noteq> backslash"
  proof
    assume c: "c = backslash"
    with decodeRune_cases [OF cw] have "byte c0 = byte CHR 0x5C"
      by (auto simp: backslash_def byte_def)
    then have "c0 = CHR 0x5C" by (simp only: byte_eq_iff)
    with "2.prems" show False by simp
  qed
  then show ?case unfolding range_str_Cons [OF cw] using tl by simp
qed

lemma unescape_loop_plain:
  "\<forall>(j, c) \<in> set rs. c \<noteq> backslash \<Longrightarrow> unescape_loop u False rs = u @ map snd rs"
proof (induction rs arbitrary: u)
  case Nil
  then show ?case by simp
next
  case (Cons p rs)
  obtain i c where p: "p = (i, c)" by (cases p)
  from Cons.prems have "c \<noteq> backslash" and "\<forall>(j, c) \<in> set rs. c \<noteq> backslash"
    by (simp_all add: p)
  then show ?case using Cons.IH [of "u @ [c]"] by (simp add: p)
qed

lemma unescape_plain:
  assumes "CHR 0x5C \<notin> set s"
  shows "unescape s = string_of_runes (map snd (range_str 0 s))"
  unfolding unescape_def
  using unescape_loop_plain [OF range_str_no_backslash [OF assms, of 0], of "[]"] by simp

lemma unescape_identity:
  assumes "valid_utf8 s" and "CHR 0x5C \<notin> set s"
  shows "unescape s = s"
  using unescape_plain [OF assms(2)] string_of_runes_range_str [OF assms(1), of 0] by simp

lemma valid_unescape: "valid_utf8 (unescape s)"
  unfolding unescape_def by (rule valid_string_of_runes)

lemma unescape_no_backslash:
  assumes "CHR 0x5C \<notin> set s"
  shows "CHR 0x5C \<notin> set (unescape s)"
proof -
  have "\<forall>r \<in> set (map snd (range_str 0 s)). r \<noteq> backslash"
    using range_str_no_backslash [OF assms, of 0] by auto
  then show ?thesis
    unfolding unescape_plain [OF assms] string_of_runes_def
    using encodeRune_no_backslash by auto
qed

lemma unescape_decoded:
  assumes "CHR 0x5C \<notin> set (unescape s)"
  shows "unescape (unescape s) = unescape s"
  by (rule unescape_identity [OF valid_unescape assms])

section \<open>The escape decoder\<close>

text \<open>Evaluating the classifier and the decoder on a given string.\<close>

lemmas eval_string =
  parseKeyValue_def byte_def backslash_def found_def slice_from_def unescape_def
  string_of_runes_def encodeRune_def encode3_def peek_eq_def index_str_def char_of_eq_iff
  between_def RuneError_def Let_def

text \<open>
  Claim C9, as the specification states it: for every string without a backslash,
  \<^verbatim>\<open>unescape\<close> returns the string unchanged. It fails on a string that is not well-formed
  UTF-8: the loop ranges over code points, so the single byte \<^verbatim>\<open>0xFF\<close> is read as the
  replacement character \<^verbatim>\<open>U+FFFD\<close>, and \<^verbatim>\<open>string(u)\<close> writes that as three bytes.
\<close>

theorem unescape_invalid_utf8_counterexample:
  "CHR 0x5C \<notin> set [CHR 0xFF] \<and> unescape [CHR 0xFF] = [CHR 0xEF, CHR 0xBF, CHR 0xBD]
   \<and> unescape [CHR 0xFF] \<noteq> [CHR 0xFF]"
  by (simp add: eval_string)

text \<open>
  Claim C9, amended: for every string that is well-formed UTF-8 and contains no backslash,
  \<^verbatim>\<open>unescape\<close> returns the string unchanged; and for every string, well-formed or not,
  that contains no backslash, or whose decoding contains none, decoding the decoded text
  again changes nothing.
\<close>

theorem unescape_without_backslash:
  "(valid_utf8 s \<and> CHR 0x5C \<notin> set s \<longrightarrow> unescape s = s)
   \<and> (CHR 0x5C \<notin> set s \<longrightarrow> unescape (unescape s) = unescape s)
   \<and> (CHR 0x5C \<notin> set (unescape s) \<longrightarrow> unescape (unescape s) = unescape s)"
  using unescape_identity [of s] unescape_decoded [of s] unescape_no_backslash [of s]
  by blast

text \<open>The amended claim C9 at the string \<^verbatim>\<open>caf\<close> followed by the two bytes of \<^verbatim>\<open>U+00E9\<close>.\<close>

theorem unescape_without_backslash_witness:
  "valid_utf8 [CHR ''c'', CHR ''a'', CHR ''f'', CHR 0xC3, CHR 0xA9]
   \<and> CHR 0x5C \<notin> set [CHR ''c'', CHR ''a'', CHR ''f'', CHR 0xC3, CHR 0xA9]
   \<and> unescape [CHR ''c'', CHR ''a'', CHR ''f'', CHR 0xC3, CHR 0xA9]
       = [CHR ''c'', CHR ''a'', CHR ''f'', CHR 0xC3, CHR 0xA9]
   \<and> unescape (unescape [CHR ''c'', CHR ''a'', CHR ''f'', CHR 0xC3, CHR 0xA9])
       = unescape [CHR ''c'', CHR ''a'', CHR ''f'', CHR 0xC3, CHR 0xA9]"
proof -
  let ?s = "[CHR ''c'', CHR ''a'', CHR ''f'', CHR 0xC3, CHR 0xA9]"
  have h: "valid_utf8 ?s \<and> CHR 0x5C \<notin> set ?s"
    by (simp add: byte_def between_def Let_def)
  with unescape_without_backslash [of ?s] have "unescape ?s = ?s \<and> unescape (unescape ?s) = unescape ?s"
    by blast
  with h show ?thesis by blast
qed

section \<open>The token classifier\<close>

text \<open>
  Claim C2: the kind is that of the first unescaped delimiter from the left. When \<open>pre\<close>
  holds no unescaped delimiter and does not end in an unescaped backslash, then \<open>pre\<close>
  followed by \<^verbatim>\<open>:=\<close> is Json, by \<^verbatim>\<open>:\<close> and no \<^verbatim>\<open>=\<close> is Header, by \<^verbatim>\<open>==\<close> is Query, by
  \<^verbatim>\<open>=\<close> and no second \<^verbatim>\<open>=\<close> is Body, by \<^verbatim>\<open>@\<close> is File; the key is the decoded \<open>pre\<close> and the
  value the decoded rest. A string is Unknown, with empty key and value, exactly when it
  holds no unescaped delimiter. The seven examples of the specification follow.
\<close>

theorem parseKeyValue_first_unescaped_delimiter:
  "(esc_scan False pre = Some False \<longrightarrow>
      parseKeyValue (pre @ '':='' @ post) = Inr (kvpJSON, unescape pre, unescape post)
    \<and> (post = [] \<or> hd post \<noteq> CHR ''='' \<longrightarrow>
         parseKeyValue (pre @ '':'' @ post) = Inr (kvpHeader, unescape pre, unescape post))
    \<and> parseKeyValue (pre @ ''=='' @ post) = Inr (kvpQuery, unescape pre, unescape post)
    \<and> (post = [] \<or> hd post \<noteq> CHR ''='' \<longrightarrow>
         parseKeyValue (pre @ ''='' @ post) = Inr (kvpBody, unescape pre, unescape post))
    \<and> parseKeyValue (pre @ ''@'' @ post) = Inr (kvpFile, unescape pre, unescape post))
   \<and> (esc_scan False s \<noteq> None \<longrightarrow> parseKeyValue s = Inr (kvpUnknown, [], []))
   \<and> (esc_scan False s = None \<longrightarrow> (\<exists>t k v. parseKeyValue s = Inr (t, k, v) \<and> t \<noteq> kvpUnknown))
   \<and> parseKeyValue ''a:b'' = Inr (kvpHeader, ''a'', ''b'')
   \<and> parseKeyValue ''a:=1'' = Inr (kvpJSON, ''a'', ''1'')
   \<and> parseKeyValue ''a==b'' = Inr (kvpQuery, ''a'', ''b'')
   \<and> parseKeyValue ''a=b'' = Inr (kvpBody, ''a'', ''b'')
   \<and> parseKeyValue ''a@file.txt'' = Inr (kvpFile, ''a'', ''file.txt'')
   \<and> parseKeyValue ''noDelimiter'' = Inr (kvpUnknown, [], [])
   \<and> parseKeyValue [CHR ''a'', CHR 0x5C, CHR '':'', CHR ''='', CHR ''b'']
       = Inr (kvpBody, ''a:'', ''b'')"
proof -
  have general: "esc_scan False pre = Some False \<longrightarrow>
      parseKeyValue (pre @ '':='' @ post) = Inr (kvpJSON, unescape pre, unescape post)
    \<and> (post = [] \<or> hd post \<noteq> CHR ''='' \<longrightarrow>
         parseKeyValue (pre @ '':'' @ post) = Inr (kvpHeader, unescape pre, unescape post))
    \<and> parseKeyValue (pre @ ''=='' @ post) = Inr (kvpQuery, unescape pre, unescape post)
    \<and> (post = [] \<or> hd post \<noteq> CHR ''='' \<longrightarrow>
         parseKeyValue (pre @ ''='' @ post) = Inr (kvpBody, unescape pre, unescape post))
    \<and> parseKeyValue (pre @ ''@'' @ post) = Inr (kvpFile, unescape pre, unescape post)"
    using classify_colon_eq [of pre post] classify_colon [of pre post]
      classify_eq_eq [of pre post] classify_eq [of pre post] classify_at [of pre post]
    by simp
  have unknown: "esc_scan False s \<noteq> None \<longrightarrow> parseKeyValue s = Inr (kvpUnknown, [], [])"
    using classify_unknown [of s] by auto
  have known: "esc_scan False s = None \<longrightarrow>
      (\<exists>t k v. parseKeyValue s = Inr (t, k, v) \<and> t \<noteq> kvpUnknown)"
    using classify_known [of s] by blast
  have e1: "parseKeyValue ''a:b'' = Inr (kvpHeader, ''a'', ''b'')"
    by (simp add: eval_string)
  have e2: "parseKeyValue ''a:=1'' = Inr (kvpJSON, ''a'', ''1'')"
    by (simp add: eval_string)
  have e3: "parseKeyValue ''a==b'' = Inr (kvpQuery, ''a'', ''b'')"
    by (simp add: eval_string)
  have e4: "parseKeyValue ''a=b'' = Inr (kvpBody, ''a'', ''b'')"
    by (simp add: eval_string)
  have e5: "parseKeyValue ''a@file.txt'' = Inr (kvpFile, ''a'', ''file.txt'')"
    by (simp add: eval_string)
  have e6: "parseKeyValue ''noDelimiter'' = Inr (kvpUnknown, [], [])"
    by (simp add: eval_string)
  have e7: "parseKeyValue [CHR ''a'', CHR 0x5C, CHR '':'', CHR ''='', CHR ''b'']
       = Inr (kvpBody, ''a:'', ''b'')"
    by (simp add: eval_string)
  from general unknown known e1 e2 e3 e4 e5 e6 e7 show ?thesis by blast
qed

text \<open>
  Claim C2 at the key \<^verbatim>\<open>x\=y\<close>, whose \<^verbatim>\<open>=\<close> is escaped, the value \<^verbatim>\<open>[1]\<close> and the string
  \<^verbatim>\<open>plain\<close>.
\<close>

theorem parseKeyValue_first_unescaped_delimiter_witness:
  "esc_scan False [CHR ''x'', CHR 0x5C, CHR ''='', CHR ''y''] = Some False
   \<and> parseKeyValue ([CHR ''x'', CHR 0x5C, CHR ''='', CHR ''y''] @ '':='' @ ''[1]'')
       = Inr (kvpJSON, ''x=y'', ''[1]'')
   \<and> parseKeyValue ([CHR ''x'', CHR 0x5C, CHR ''='', CHR ''y''] @ '':'' @ ''[1]'')
       = Inr (kvpHeader, ''x=y'', ''[1]'')
   \<and> parseKeyValue ([CHR ''x'', CHR 0x5C, CHR ''='', CHR ''y''] @ ''=='' @ ''[1]'')
       = Inr (kvpQuery, ''x=y'', ''[1]'')
   \<and> parseKeyValue ([CHR ''x'', CHR 0x5C, CHR ''='', CHR ''y''] @ ''='' @ ''[1]'')
       = Inr (kvpBody, ''x=y'', ''[1]'')
   \<and> parseKeyValue ([CHR ''x'', CHR 0x5C, CHR ''='', CHR ''y''] @ ''@'' @ ''[1]'')
       = Inr (kvpFile, ''x=y'', ''[1]'')
   \<and> esc_scan False ''plain'' \<noteq> None
   \<and> parseKeyValue ''plain'' = Inr (kvpUnknown, [], [])"
proof -
  let ?pre = "[CHR ''x'', CHR 0x5C, CHR ''='', CHR ''y'']"
  have h: "esc_scan False ?pre = Some False" by simp
  have p: "''[1]'' = [] \<or> hd ''[1]'' \<noteq> CHR ''=''" by simp
  have n: "esc_scan False ''plain'' \<noteq> None" by simp
  have u: "unescape ?pre = ''x=y''" "unescape ''[1]'' = ''[1]''"
    by (simp_all add: eval_string)
  from parseKeyValue_first_unescaped_delimiter [of ?pre "''[1]''" "''plain''"] h p n
  have "parseKeyValue (?pre @ '':='' @ ''[1]'') = Inr (kvpJSON, unescape ?pre, unescape ''[1]'')
    \<and> parseKeyValue (?pre @ '':'' @ ''[1]'') = Inr (kvpHeader, unescape ?pre, unescape ''[1]'')
    \<and> parseKeyValue (?pre @ ''=='' @ ''[1]'') = Inr (kvpQuery, unescape ?pre, unescape ''[1]'')
    \<and> parseKeyValue (?pre @ ''='' @ ''[1]'') = Inr (kvpBody, unescape ?pre, unescape ''[1]'')
    \<and> parseKeyValue (?pre @ ''@'' @ ''[1]'') = Inr (kvpFile, unescape ?pre, unescape ''[1]'')
    \<and> parseKeyValue ''plain'' = Inr (kvpUnknown, [], [])"
    by blast
  then show ?thesis unfolding u using h n by blast
qed

text \<open>
  Claim C8, as the specification states it: when the first unescaped \<^verbatim>\<open>:\<close> or \<^verbatim>\<open>=\<close> is the
  last character of the argument, the kind is Header or Body and the value is empty. It
  fails when an unescaped \<^verbatim>\<open>@\<close> comes before: the loop returns at the first delimiter it
  meets, and \<^verbatim>\<open>@\<close> is one. In \<^verbatim>\<open>a@b:\<close> the first unescaped \<^verbatim>\<open>:\<close> or \<^verbatim>\<open>=\<close> is the last of the
  four characters, at index 3, and the argument is a File token with the key \<^verbatim>\<open>a\<close> and the
  value \<^verbatim>\<open>b:\<close>.
\<close>

theorem parseKeyValue_file_before_colon_counterexample:
  "first_colon_or_equals False ''a@b:'' = Some 3 \<and> length ''a@b:'' = 4
   \<and> parseKeyValue ''a@b:'' = Inr (kvpFile, ''a'', ''b:'')
   \<and> parseKeyValue ''a@b:'' \<noteq> Inr (kvpHeader, ''a@b'', [])"
  by (simp add: eval_string)

text \<open>
  Claim C8, amended: the classifier never panics, whatever the string; and when the first
  unescaped delimiter, \<^verbatim>\<open>@\<close> counted as one, is a \<^verbatim>\<open>:\<close> or a \<^verbatim>\<open>=\<close> and is the last byte, so
  that there is nothing to peek at, the kind is Header for \<^verbatim>\<open>:\<close> and Body for \<^verbatim>\<open>=\<close>, with
  the empty value. That \<open>pre\<close> holds no unescaped delimiter and does not end in an unescaped
  backslash is \<open>esc_scan False pre = Some False\<close>.
\<close>

theorem parseKeyValue_delimiter_at_end:
  "(\<exists>t k v. parseKeyValue s = Inr (t, k, v))
   \<and> (esc_scan False pre = Some False \<longrightarrow>
        parseKeyValue (pre @ '':'') = Inr (kvpHeader, unescape pre, [])
      \<and> parseKeyValue (pre @ ''='') = Inr (kvpBody, unescape pre, []))"
proof -
  have u: "unescape [] = []" by (simp add: unescape_def string_of_runes_def)
  have "\<exists>t k v. parseKeyValue s = Inr (t, k, v)"
    using parseKeyValue_total [of s] by auto
  moreover have "esc_scan False pre = Some False \<longrightarrow>
        parseKeyValue (pre @ '':'') = Inr (kvpHeader, unescape pre, [])
      \<and> parseKeyValue (pre @ ''='') = Inr (kvpBody, unescape pre, [])"
    using classify_colon [of pre "[]"] classify_eq [of pre "[]"] u by simp
  ultimately show ?thesis by blast
qed

text \<open>The amended claim C8 at the strings \<^verbatim>\<open>Accept:\<close> and \<^verbatim>\<open>Accept=\<close>.\<close>

theorem parseKeyValue_delimiter_at_end_witness:
  "esc_scan False ''Accept'' = Some False
   \<and> parseKeyValue ''Accept:'' = Inr (kvpHeader, ''Accept'', [])
   \<and> parseKeyValue ''Accept='' = Inr (kvpBody, ''Accept'', [])"
proof -
  have h: "esc_scan False ''Accept'' = Some False" by simp
  have u: "unescape ''Accept'' = ''Accept''" by (simp add: eval_string)
  from parseKeyValue_delimiter_at_end [of _ "''Accept''"] h
  have "parseKeyValue (''Accept'' @ '':'') = Inr (kvpHeader, unescape ''Accept'', [])
      \<and> parseKeyValue (''Accept'' @ ''='') = Inr (kvpBody, unescape ''Accept'', [])"
    by blast
  then show ?thesis unfolding u using h by simp
qed

section \<open>The argument aggregator\<close>

text \<open>
  Claim C1 says that a key given twice as a Body token, \<^verbatim>\<open>k=v1\<close> then \<^verbatim>\<open>k=v2\<close>, ends with
  the list \<^verbatim>\<open>[v1, v2]\<close>. The code reads the list to append to from the query map, not from
  the body map: the second token replaces the first, and a query parameter of the same key
  leaks into the body.
\<close>

theorem parseArgs_body_given_twice:
  "parseArgs [''k=v1'', ''k=v2'']
     = Inr \<lparr>headers = [], query = [], body = [(''k'', [''v2''])], js = [], file_map = []\<rparr>
   \<and> parseArgs [''k==q'', ''k=v'']
     = Inr \<lparr>headers = [], query = [(''k'', [''q''])], body = [(''k'', [''q'', ''v''])], js = [],
            file_map = []\<rparr>"
  by (simp add: parseArgs_def empty_kvpairs_def parseArgs_step_def index_values_def eval_string)

section \<open>Value coercion\<close>

lemma index_values_update:
  "index_values (AList.update k v m) k' = (if k' = k then v else index_values m k')"
  by (simp add: index_values_def update_conv')

lemma index_values_Add:
  "index_values (Add vs key x) k = (if k = key then index_values vs key @ [x] else index_values vs k)"
  by (simp add: Add_def index_values_update)

lemma fold_Add_keys:
  "index_values (fold (\<lambda>x vs. Add vs key x) xs vs) k
     = (if k = key then index_values vs key @ xs else index_values vs k)"
  by (induction xs arbitrary: vs) (simp_all add: index_values_Add)

lemma addValues_GMap:
  "addValues g (vs, lg) key (GMap m) = (fold (\<lambda>k vs. Add vs key k) (map fst m) vs, lg)"
proof -
  have "fold (\<lambda>k st. addValues g st key (GString k)) ks (vs, lg)
      = (fold (\<lambda>k vs. Add vs key k) ks vs, lg)" for ks
    by (induction ks arbitrary: vs) simp_all
  then show ?thesis by simp
qed

lemma addValues_fields:
  "index_values (fst (addValues g (vs, lg) key v)) k
     = (if k = key then index_values vs key @ fields g v else index_values vs k)"
proof (induction v arbitrary: vs lg k)
  case (GMap m)
  show ?case unfolding addValues_GMap by (simp add: fold_Add_keys)
next
  case (GSlice val)
  have "index_values (fst (fold (\<lambda>v st. addValues g st key v) xs st)) k
      = (if k = key then index_values (fst st) key @ concat (map (fields g) xs)
         else index_values (fst st) k)" if "set xs \<subseteq> set val" for xs st k
    using that
  proof (induction xs arbitrary: st)
    case Nil
    then show ?case by simp
  next
    case (Cons x xs)
    obtain vs' lg' where st: "st = (vs', lg')" by (cases st)
    obtain vs'' lg'' where st': "addValues g (vs', lg') key x = (vs'', lg'')"
      by (cases "addValues g (vs', lg') key x")
    from Cons.prems have x: "x \<in> set val" and xs: "set xs \<subseteq> set val" by simp_all
    have step: "index_values vs'' k
        = (if k = key then index_values vs' key @ fields g x else index_values vs' k)" for k
      using GSlice.IH [OF x, of vs' lg' k] st' by simp
    show ?case
      using Cons.IH [OF xs, of "(vs'', lg'')"] step [of k] step [of key]
      by (simp add: st st')
  qed
  from this [of val "(vs, lg)" k] show ?case by simp
qed (simp_all add: index_values_Add)

lemma fields_scalars:
  "\<forall>x \<in> set xs. scalar x \<Longrightarrow> length (fields g (GSlice xs)) = length xs"
proof (induction xs)
  case Nil
  then show ?case by simp
next
  case (Cons x xs)
  then have "scalar x" by simp
  then have "length (fields g x) = 1" by (cases x) simp_all
  with Cons show ?case by simp
qed

text \<open>
  Claim C7, as the specification states it, has an array contribute one form field for
  each element, and a number its shortest decimal text. An element that is \<^verbatim>\<open>nil\<close> is
  logged and adds no field, and an element that is an array adds a field for each of its
  own elements: two elements give one field, and one element gives two. The whole number
  1234567 adds the twelve bytes \<^verbatim>\<open>1.234567e+06\<close> that \<^verbatim>\<open>%g\<close> writes for it, not its seven
  decimal digits.
\<close>

theorem addValues_array_and_number_counterexample:
  "index_values (fst (addValues Sprintf_g_whole ([], []) ''k''
       (GSlice [GNil, GString ''a'']))) ''k'' = [''a'']
   \<and> snd (addValues Sprintf_g_whole ([], []) ''k'' (GSlice [GNil, GString ''a'']))
       = [UnknownType ''<nil>'']
   \<and> length [GNil :: int gvalue, GString ''a''] = 2
   \<and> index_values (fst (addValues Sprintf_g_whole ([], []) ''k''
       (GSlice [GSlice [GString ''a'', GString ''b'']]))) ''k'' = [''a'', ''b'']
   \<and> length [GSlice [GString ''a'', GString ''b''] :: int gvalue] = 1
   \<and> index_values (fst (addValues Sprintf_g_whole ([], []) ''k'' (GFloat64 1234567))) ''k''
       = [''1.234567e+06'']
   \<and> Itoa 1234567 = ''1234567''
   \<and> length ''1234567'' < length ''1.234567e+06''"
  by (simp add: index_values_def Add_def Sprintf_g_whole_def exponent_text_def Itoa.simps
      digit_def Let_def char_of_eq_iff)

text \<open>
  Claim C7, amended: what \<^verbatim>\<open>addValues\<close> adds under the key, for every formatter \<open>g\<close> in
  the place of \<^verbatim>\<open>fmt.Sprintf("%g", _)\<close>. A boolean adds \<^verbatim>\<open>true\<close> or \<^verbatim>\<open>false\<close>, a string
  itself, a number the text that the formatter returns for it, unchanged; an object adds
  its keys, one after the other, and nothing of its values; an array adds what its
  elements add, in order, which is one field for each element that is a boolean, a string
  or a number, and as many fields as elements when all of them are; any other value adds
  nothing and is logged. The values of every other key stay as they were.
\<close>

theorem addValues_coerces:
  "addValues g (vs, lg) key (GBool True) = (Add vs key ''true'', lg)
   \<and> addValues g (vs, lg) key (GBool False) = (Add vs key ''false'', lg)
   \<and> addValues g (vs, lg) key (GString str) = (Add vs key str, lg)
   \<and> addValues g (vs, lg) key (GFloat64 x) = (Add vs key (g x), lg)
   \<and> addValues g (vs, lg) key (GMap m) = (fold (\<lambda>k vs. Add vs key k) (map fst m) vs, lg)
   \<and> addValues g (vs, lg) key (GSlice xs) = fold (\<lambda>v st. addValues g st key v) xs (vs, lg)
   \<and> addValues g (vs, lg) key GNil = (vs, lg @ [UnknownType ''<nil>''])
   \<and> addValues g (vs, lg) key (GNumber n) = (vs, lg @ [UnknownType ''json.Number''])
   \<and> addValues g (vs, lg) key (GStrings ss) = (vs, lg @ [UnknownType ''[]string''])
   \<and> index_values (fst (addValues g (vs, lg) key v)) key = index_values vs key @ fields g v
   \<and> (k \<noteq> key \<longrightarrow> index_values (fst (addValues g (vs, lg) key v)) k = index_values vs k)
   \<and> length (fields g (GSlice xs)) = sum_list (map (\<lambda>e. length (fields g e)) xs)
   \<and> (scalar e \<longrightarrow> length (fields g e) = 1)
   \<and> ((\<forall>e \<in> set xs. scalar e) \<longrightarrow> length (fields g (GSlice xs)) = length xs)"
proof -
  have sum: "length (fields g (GSlice xs)) = sum_list (map (\<lambda>e. length (fields g e)) xs)"
    by (simp add: length_concat comp_def)
  have one: "scalar e \<longrightarrow> length (fields g e) = 1"
    by (cases e) simp_all
  show ?thesis
    using addValues_GMap [of g vs lg key m] addValues_fields [of g vs lg key v key]
      addValues_fields [of g vs lg key v k] fields_scalars [of xs g] sum one
    by simp
qed

text \<open>
  The amended claim C7 with the formatter of whole numbers, at an array holding an object,
  a \<^verbatim>\<open>nil\<close>, an array and a number, added under the key \<^verbatim>\<open>k\<close> to values that hold the
  keys \<^verbatim>\<open>k\<close> and \<^verbatim>\<open>other\<close>.
\<close>

theorem addValues_coerces_witness:
  "''other'' \<noteq> ''k''
   \<and> scalar (GBool True :: int gvalue) \<and> scalar (GString ''s'' :: int gvalue)
   \<and> scalar (GFloat64 (2::int))
   \<and> index_values (fst (addValues Sprintf_g_whole ([(''k'', [''old'']), (''other'', [''o''])], []) ''k''
         (GSlice [GMap [(''a'', GNil), (''b'', GFloat64 1)], GNil, GSlice [GString ''s''],
                  GFloat64 1234567]))) ''k''
       = [''old'', ''a'', ''b'', ''s'', ''1.234567e+06'']
   \<and> index_values (fst (addValues Sprintf_g_whole ([(''k'', [''old'']), (''other'', [''o''])], []) ''k''
         (GSlice [GMap [(''a'', GNil), (''b'', GFloat64 1)], GNil, GSlice [GString ''s''],
                  GFloat64 1234567]))) ''other''
       = [''o'']
   \<and> length (fields Sprintf_g_whole (GFloat64 (2::int))) = 1
   \<and> length (fields Sprintf_g_whole (GSlice [GBool True, GString ''s'', GFloat64 2])) = 3"
proof -
  let ?g = "Sprintf_g_whole"
  let ?vs = "[(''k'', [''old'']), (''other'', [''o''])]"
  let ?v = "GSlice [GMap [(''a'', GNil), (''b'', GFloat64 1)], GNil, GSlice [GString ''s''],
                    GFloat64 1234567]"
  let ?xs = "[GBool True, GString ''s'', GFloat64 (2::int)]"
  let ?e = "GFloat64 (2::int)"
  have h1: "''other'' \<noteq> ''k''" by simp
  have s1: "scalar (GBool True :: int gvalue)" and s2: "scalar (GString ''s'' :: int gvalue)"
    and s3: "scalar (GFloat64 (2::int))"
    by simp_all
  from s1 s2 s3 have h2: "\<forall>e \<in> set ?xs. scalar e" by simp
  from addValues_coerces [of ?g ?vs "[]" "''k''" _ _ _ ?xs _ _ ?v "''other''" ?e] h1 h2 s3
  have c: "index_values (fst (addValues ?g (?vs, []) ''k'' ?v)) ''k'' = index_values ?vs ''k'' @ fields ?g ?v"
    "index_values (fst (addValues ?g (?vs, []) ''k'' ?v)) ''other'' = index_values ?vs ''other''"
    "length (fields ?g ?e) = 1"
    "length (fields ?g (GSlice ?xs)) = length ?xs"
    by blast+
  have r: "index_values ?vs ''k'' @ fields ?g ?v = [''old'', ''a'', ''b'', ''s'', ''1.234567e+06'']"
    "index_values ?vs ''other'' = [''o'']" "length ?xs = 3"
    by (simp_all add: index_values_def Sprintf_g_whole_def exponent_text_def Itoa.simps
        digit_def Let_def char_of_eq_iff)
  show ?thesis
    apply (intro conjI)
    subgoal using h1 .
    subgoal using s1 .
    subgoal using s2 .
    subgoal using s3 .
    subgoal using c(1) [unfolded r] .
    subgoal using c(2) [unfolded r] .
    subgoal using c(3) .
    subgoal using c(4) [unfolded r] .
    done
qed

section \<open>The JSON renderer\<close>

lemma text_of_append: "text_of (a @ b) = text_of a @ text_of b"
  by (induction a rule: text_of.induct) simp_all

lemma text_of_indent: "text_of (indent n) = spaces n"
proof -
  have "text_of (replicate m (Print ''    '')) = concat (replicate m ''    '')" for m
    by (induction m) simp_all
  then show ?thesis by (simp add: indent_def spaces_def)
qed

lemma text_of_printMembers:
  "text_of (printMembers quote depth v needNL keys)
     = (if needNL \<and> keys \<noteq> [] then '','' @ newline else [])
       @ join ('','' @ newline) (map (member_text quote depth v) keys)"
proof (induction keys arbitrary: needNL)
  case Nil
  then show ?case by simp
next
  case (Cons key keys)
  show ?case
  proof (cases keys)
    case Nil
    then show ?thesis
      by (simp add: text_of_append text_of_indent member_text_def)
  next
    case (Cons key' keys')
    then show ?thesis
      using Cons.IH [of True]
      by (simp add: text_of_append text_of_indent member_text_def)
  qed
qed

lemma text_of_printJSON_GMap:
  assumes "v \<noteq> []"
  shows "text_of (printJSON quote depth (GMap v) isKey)
     = ''{'' @ newline
       @ join ('','' @ newline) (map (member_text quote depth v) (sort (map fst v)))
       @ newline @ spaces (depth - 1) @ ''}''"
  using assms by (simp add: text_of_append text_of_indent text_of_printMembers)

lemma printMembers_cong:
  assumes "\<forall>key \<in> set keys. index_map v key = index_map v' key"
  shows "printMembers quote depth v needNL keys = printMembers quote depth v' needNL keys"
  using assms by (induction keys arbitrary: needNL) simp_all

lemma printJSON_same_map:
  assumes "distinct (map fst v)" "distinct (map fst v')" "set v = set v'"
  shows "printJSON quote depth (GMap v) isKey = printJSON quote depth (GMap v') isKey"
proof -
  have m: "map_of v = map_of v'"
    using assms by (simp add: map_of_inject_set)
  have "set (map fst v) = set (map fst v')" using assms(3) by simp
  then have "set (sort (map fst v)) = set (sort (map fst v'))" by simp
  moreover have "distinct (sort (map fst v))" "distinct (sort (map fst v'))"
    using assms(1,2) by simp_all
  ultimately have k: "sort (map fst v) = sort (map fst v')"
    using sorted_distinct_set_unique [of "sort (map fst v)" "sort (map fst v')"] by simp
  have e: "(v = []) = (v' = [])" using assms(3) by auto
  have "printMembers quote depth v False (sort (map fst v'))
      = printMembers quote depth v' False (sort (map fst v'))"
    by (rule printMembers_cong) (simp add: index_map_def m)
  then show ?thesis using e by (simp add: k)
qed

lemma spaces_step: "0 < depth \<Longrightarrow> spaces depth = ''    '' @ spaces (depth - 1)"
proof -
  assume "0 < depth"
  then have "nat depth = Suc (nat (depth - 1))" by simp
  then show ?thesis by (simp add: spaces_def)
qed

text \<open>
  Claim C6: a non-empty object is printed as an opening brace and a newline, then its
  members in the sorted order of their keys, each indented by \<open>depth\<close> units of four
  spaces and written as quoted key, colon, space and value, joined by a comma and a
  newline, then a newline and the closing brace indented by one unit less. The output is
  the same for two lists that hold the same members in different orders. The empty
  object is printed as \<^verbatim>\<open>{}\<close> and the empty array as \<^verbatim>\<open>[]\<close>, nothing else.
\<close>

theorem printJSON_object:
  "(v \<noteq> [] \<longrightarrow>
      text_of (printJSON quote depth (GMap v) isKey)
        = ''{'' @ newline
          @ join ('','' @ newline) (map (member_text quote depth v) (sort (map fst v)))
          @ newline @ spaces (depth - 1) @ ''}'')
   \<and> sorted (sort (map fst v)) \<and> set (sort (map fst v)) = fst ` set v
   \<and> member_text quote depth v key
        = spaces depth @ quote key @ '': ''
          @ text_of (printJSON quote (depth + 1) (index_map v key) False)
   \<and> (0 < depth \<longrightarrow> spaces depth = ''    '' @ spaces (depth - 1))
   \<and> (distinct (map fst v) \<and> distinct (map fst v') \<and> set v = set v' \<longrightarrow>
        printJSON quote depth (GMap v) isKey = printJSON quote depth (GMap v') isKey)
   \<and> text_of (printJSON quote 1 (GMap [(''b'', GNumber ''1''), (''a'', GNumber ''2'')]) False)
        = ''{'' @ newline @ ''    '' @ quote ''a'' @ '': 2,'' @ newline
          @ ''    '' @ quote ''b'' @ '': 1'' @ newline @ ''}''
   \<and> printJSON quote depth (GMap []) isKey = [Print ''{}'']
   \<and> printJSON quote depth (GSlice []) isKey = [Print ''[]'']"
proof -
  have ex: "text_of (printJSON quote 1 (GMap [(''b'', GNumber ''1''), (''a'', GNumber ''2'')]) False)
        = ''{'' @ newline @ ''    '' @ quote ''a'' @ '': 2,'' @ newline
          @ ''    '' @ quote ''b'' @ '': 1'' @ newline @ ''}''"
    by (simp add: index_map_def indent_def text_of_append)
  show ?thesis
    using text_of_printJSON_GMap [of v quote depth isKey] spaces_step [of depth]
      printJSON_same_map [of v v' quote depth isKey] ex
    by (simp add: member_text_def)
qed

text \<open>
  Claim C6 at the object with the members \<^verbatim>\<open>b\<close> and \<^verbatim>\<open>a\<close>, given in both orders, at depth
  one, the quoting function putting the string between double quotes.
\<close>

theorem printJSON_object_witness:
  "[(''b'', GNumber ''1''), (''a'', GMap [])] \<noteq> ([] :: (string, int gvalue) gomap)
   \<and> (0::int) < 1
   \<and> distinct (map fst [(''b'', GNumber ''1''), (''a'', GMap [] :: int gvalue)])
   \<and> distinct (map fst [(''a'', GMap []), (''b'', GNumber ''1'' :: int gvalue)])
   \<and> set [(''b'', GNumber ''1''), (''a'', GMap [] :: int gvalue)]
       = set [(''a'', GMap []), (''b'', GNumber ''1'')]
   \<and> text_of (printJSON (\<lambda>s. CHR 0x22 # s @ [CHR 0x22]) 1
         (GMap [(''b'', GNumber ''1''), (''a'', GMap [] :: int gvalue)]) False)
       = ''{'' @ newline
         @ ''    '' @ [CHR 0x22] @ ''a'' @ [CHR 0x22] @ '': {},'' @ newline
         @ ''    '' @ [CHR 0x22] @ ''b'' @ [CHR 0x22] @ '': 1'' @ newline
         @ ''}''
   \<and> printJSON (\<lambda>s. CHR 0x22 # s @ [CHR 0x22]) 1
         (GMap [(''b'', GNumber ''1''), (''a'', GMap [] :: int gvalue)]) False
       = printJSON (\<lambda>s. CHR 0x22 # s @ [CHR 0x22]) 1
         (GMap [(''a'', GMap []), (''b'', GNumber ''1'' :: int gvalue)]) False
   \<and> spaces 1 = ''    '' @ spaces (1 - 1)"
proof -
  let ?q = "\<lambda>s. CHR 0x22 # s @ [CHR 0x22]"
  let ?v = "[(''b'', GNumber ''1''), (''a'', GMap [])] :: (string, int gvalue) gomap"
  let ?v' = "[(''a'', GMap []), (''b'', GNumber ''1'')] :: (string, int gvalue) gomap"
  have h: "?v \<noteq> []" "(0::int) < 1" "distinct (map fst ?v)" "distinct (map fst ?v')"
    by simp_all
  have hs: "set ?v = set ?v'" by auto
  from printJSON_object [of ?v ?q 1 False _ ?v'] h hs
  have t: "text_of (printJSON ?q 1 (GMap ?v) False)
        = ''{'' @ newline
          @ join ('','' @ newline) (map (member_text ?q 1 ?v) (sort (map fst ?v)))
          @ newline @ spaces (1 - 1) @ ''}''"
    and e: "printJSON ?q 1 (GMap ?v) False = printJSON ?q 1 (GMap ?v') False"
    and sp: "spaces 1 = ''    '' @ spaces (1 - 1)"
    by blast+
  have rhs: "''{'' @ newline
          @ join ('','' @ newline) (map (member_text ?q 1 ?v) (sort (map fst ?v)))
          @ newline @ spaces (1 - 1) @ ''}''
       = ''{'' @ newline
         @ ''    '' @ [CHR 0x22] @ ''a'' @ [CHR 0x22] @ '': {},'' @ newline
         @ ''    '' @ [CHR 0x22] @ ''b'' @ [CHR 0x22] @ '': 1'' @ newline
         @ ''}''"
    by (simp add: member_text_def spaces_def index_map_def)
  show ?thesis
    apply (intro conjI)
    subgoal using h(1) .
    subgoal using h(2) .
    subgoal using h(3) .
    subgoal using h(4) .
    subgoal using hs .
    subgoal using t [unfolded rhs] .
    subgoal using e .
    subgoal using sp .
    done
qed

section \<open>Merging the body parameters\<close>

lemma add_js_lookup:
  assumes "add_js E j bp = Inr bp'" and "distinct (map fst j)"
  shows "map_of bp' k = (case map_of j k of Some raw \<Rightarrow> Unmarshal E raw | None \<Rightarrow> map_of bp k)"
  using assms
proof (induction j arbitrary: bp)
  case Nil
  then show ?case by simp
next
  case (Cons p j)
  obtain k0 v where p: "p = (k0, v)" by (cases p)
  from Cons.prems(1) obtain vint where u: "Unmarshal E v = Some vint"
    and r: "add_js E j (AList.update k0 vint bp) = Inr bp'"
    by (auto simp: p split: option.splits)
  from Cons.prems(2) have d: "distinct (map fst j)" and n: "k0 \<notin> fst ` set j"
    by (simp_all add: p)
  from n have m: "map_of j k0 = None" by (simp add: map_of_eq_None_iff)
  show ?case
    using Cons.IH [OF r d] u m
    by (auto simp: p update_conv' split: option.splits)
qed

lemma add_js_succeeds:
  assumes "\<forall>(k, raw) \<in> set j. Unmarshal E raw \<noteq> None"
  shows "\<exists>bp'. add_js E j bp = Inr bp'"
  using assms
proof (induction j arbitrary: bp)
  case Nil
  then show ?case by simp
next
  case (Cons p j)
  obtain k0 v where p: "p = (k0, v)" by (cases p)
  from Cons.prems obtain vint where u: "Unmarshal E v = Some vint" by (auto simp: p)
  from Cons.prems have "\<forall>(k, raw) \<in> set j. Unmarshal E raw \<noteq> None" by simp
  from Cons.IH [OF this] show ?case by (simp add: p u)
qed

lemma add_body_lookup:
  assumes "distinct (map fst b)"
  shows "map_of (add_body b bp) k
       = (case map_of b k of Some v \<Rightarrow> Some (body_value v) | None \<Rightarrow> map_of bp k)"
  using assms unfolding add_body_def
proof (induction b arbitrary: bp)
  case Nil
  then show ?case by simp
next
  case (Cons p b)
  obtain k0 v where p: "p = (k0, v)" by (cases p)
  from Cons.prems have d: "distinct (map fst b)" and n: "k0 \<notin> fst ` set b"
    by (simp_all add: p)
  from n have m: "map_of b k0 = None" by (simp add: map_of_eq_None_iff)
  show ?case
    using Cons.IH [OF d, of "AList.update k0 (body_value v) bp"] m
    by (auto simp: p update_conv' split: option.splits)
qed

text \<open>
  Claim C10: when the merge of form fields and JSON fragments succeeds, a key that has a
  JSON fragment holds the decoded fragment, whether or not it is a form field too; a key
  without one holds its form value. The merge succeeds when every fragment decodes and
  is fatal when one does not.
\<close>

theorem json_fragment_replaces_form_field:
  "(distinct (map fst (js kvp)) \<and> map_of (js kvp) k = Some raw
      \<and> merge_params E kvp = Inr bodyparams \<longrightarrow>
        (\<exists>val. Unmarshal E raw = Some val \<and> map_of bodyparams k = Some val))
   \<and> (distinct (map fst (js kvp)) \<and> distinct (map fst (body kvp)) \<and> map_of (js kvp) k = None
      \<and> merge_params E kvp = Inr bodyparams \<longrightarrow>
        map_of bodyparams k = map_option body_value (map_of (body kvp) k))
   \<and> ((\<forall>(k, raw) \<in> set (js kvp). Unmarshal E raw \<noteq> None) \<longrightarrow>
        (\<exists>bp. merge_params E kvp = Inr bp))
   \<and> ((\<exists>(k, raw) \<in> set (js kvp). Unmarshal E raw = None) \<longrightarrow>
        (\<exists>raw. merge_params E kvp = Inl (InvalidJson raw)))"
proof -
  have a: "\<exists>val. Unmarshal E raw = Some val \<and> map_of bodyparams k = Some val"
    if "distinct (map fst (js kvp))" "map_of (js kvp) k = Some raw"
      "merge_params E kvp = Inr bodyparams"
  proof -
    from that(3) have r: "add_js E (js kvp) (add_body (body kvp) []) = Inr bodyparams"
      by (simp add: merge_params_def)
    from add_js_lookup [OF r that(1), of k] that(2)
    have l: "map_of bodyparams k = Unmarshal E raw" by simp
    from that(2) have "(k, raw) \<in> set (js kvp)" by (rule map_of_SomeD)
    moreover have "\<forall>(k, raw) \<in> set j. Unmarshal E raw \<noteq> None"
      if "add_js E j bp = Inr bp'" for j bp bp'
      using that
    proof (induction j arbitrary: bp)
      case Nil
      then show ?case by simp
    next
      case (Cons p j)
      then show ?case by (cases p) (auto split: option.splits)
    qed
    ultimately have "Unmarshal E raw \<noteq> None" using r by blast
    with l show ?thesis by auto
  qed
  have b: "map_of bodyparams k = map_option body_value (map_of (body kvp) k)"
    if "distinct (map fst (js kvp))" "distinct (map fst (body kvp))" "map_of (js kvp) k = None"
      "merge_params E kvp = Inr bodyparams"
  proof -
    from that(4) have r: "add_js E (js kvp) (add_body (body kvp) []) = Inr bodyparams"
      by (simp add: merge_params_def)
    from add_js_lookup [OF r that(1), of k] that(3) add_body_lookup [OF that(2), of "[]" k]
    show ?thesis by (simp split: option.splits)
  qed
  have c: "\<exists>bp. merge_params E kvp = Inr bp"
    if "\<forall>(k, raw) \<in> set (js kvp). Unmarshal E raw \<noteq> None"
    using add_js_succeeds [OF that] by (simp add: merge_params_def)
  have d: "\<exists>raw. merge_params E kvp = Inl (InvalidJson raw)"
    if "\<exists>(k, raw) \<in> set (js kvp). Unmarshal E raw = None"
  proof -
    have "\<exists>raw. add_js E j bp = Inl (InvalidJson raw)"
      if "\<exists>(k, raw) \<in> set j. Unmarshal E raw = None" for j bp
      using that
    proof (induction j arbitrary: bp)
      case Nil
      then show ?case by simp
    next
      case (Cons p j)
      then show ?case by (cases p) (auto split: option.splits)
    qed
    from this [OF that] show ?thesis by (simp add: merge_params_def)
  qed
  from a b c d show ?thesis by blast
qed

text \<open>
  Claim C10 at the bundle of \<^verbatim>\<open>k=form\<close>, a field \<^verbatim>\<open>f\<close> given twice and \<^verbatim>\<open>k:=2\<close>, and at
  the same bundle with the fragment \<^verbatim>\<open>{\<close> that does not decode.
\<close>

theorem json_fragment_replaces_form_field_witness:
  "distinct (map fst [(''k'', ''2'')]) \<and> distinct (map fst [(''k'', [''form'']), (''f'', [''x'', ''y''])])
   \<and> map_of [(''k'', ''2'')] ''k'' = Some ''2'' \<and> map_of [(''k'', ''2'')] ''f'' = None
   \<and> Unmarshal example_extern ''2'' \<noteq> None
   \<and> Unmarshal example_extern ''{'' = None
   \<and> merge_params example_extern
        \<lparr>headers = [], query = [], body = [(''k'', [''form'']), (''f'', [''x'', ''y''])],
         js = [(''k'', ''2'')], file_map = []\<rparr>
       = Inr [(''k'', GFloat64 (2::int)), (''f'', GStrings [''x'', ''y''])]
   \<and> (\<exists>val. Unmarshal example_extern ''2'' = Some val
          \<and> map_of [(''k'', GFloat64 (2::int)), (''f'', GStrings [''x'', ''y''])] ''k'' = Some val)
   \<and> map_of [(''k'', GFloat64 (2::int)), (''f'', GStrings [''x'', ''y''])] ''f''
       = map_option body_value (map_of [(''k'', [''form'']), (''f'', [''x'', ''y''])] ''f'')
   \<and> (\<exists>raw. merge_params example_extern
        \<lparr>headers = [], query = [], body = [(''k'', [''form'']), (''f'', [''x'', ''y''])],
         js = [(''k'', ''{'')], file_map = []\<rparr> = Inl (InvalidJson raw))"
proof -
  let ?b = "[(''k'', [''form'']), (''f'', [''x'', ''y''])]"
  let ?A = "\<lparr>headers = [], query = [], body = ?b, js = [(''k'', ''2'')], file_map = []\<rparr>"
  let ?B = "\<lparr>headers = [], query = [], body = ?b, js = [(''k'', ''{'')], file_map = []\<rparr>"
  let ?bp = "[(''k'', GFloat64 2), (''f'', GStrings [''x'', ''y''])] :: (string, int gvalue) gomap"
  have h1: "distinct (map fst (js ?A))" "distinct (map fst (body ?A))"
    "map_of (js ?A) ''k'' = Some ''2''" "map_of (js ?A) ''f'' = None"
    by simp_all
  have u2: "Unmarshal example_extern ''2'' \<noteq> None"
    and u3: "Unmarshal example_extern ''{'' = None"
    by (simp_all add: example_extern_def)
  from u2 have h2: "\<forall>(k, raw) \<in> set (js ?A). Unmarshal example_extern raw \<noteq> None"
    by simp
  from u3 have h3: "\<exists>(k, raw) \<in> set (js ?B). Unmarshal example_extern raw = None"
    by simp
  have m: "merge_params example_extern ?A = Inr ?bp"
    by (simp add: merge_params_def add_body_def body_value_def example_extern_def)
  from json_fragment_replaces_form_field [of ?A "''k''" "''2''" example_extern ?bp] h1 m
  have c1: "\<exists>val. Unmarshal example_extern ''2'' = Some val \<and> map_of ?bp ''k'' = Some val"
    by blast
  from json_fragment_replaces_form_field [of ?A "''f''" _ example_extern ?bp] h1 m
  have c2: "map_of ?bp ''f'' = map_option body_value (map_of (body ?A) ''f'')"
    by blast
  from json_fragment_replaces_form_field [of ?B _ _ example_extern] h3
  have c4: "\<exists>raw. merge_params example_extern ?B = Inl (InvalidJson raw)"
    by blast
  have sel: "js ?A = [(''k'', ''2'')]" "body ?A = ?b" "js ?B = [(''k'', ''{'')]"
    by simp_all
  show ?thesis
    apply (intro conjI)
    subgoal using h1(1) [unfolded sel] .
    subgoal using h1(2) [unfolded sel] .
    subgoal using h1(3) [unfolded sel] .
    subgoal using h1(4) [unfolded sel] .
    subgoal using u2 .
    subgoal using u3 .
    subgoal using m .
    subgoal using c1 .
    subgoal using c2 [unfolded sel] .
    subgoal using c4 .
    done
qed

section \<open>The body assembler\<close>

lemma fold_dash_absent:
  "''-'' \<notin> fst ` set f \<Longrightarrow> fold (\<lambda>(k, v) name. if k = ''-'' then v else name) f x = x"
  by (induction f arbitrary: x) auto

lemma rawBodyFilename_present:
  assumes "distinct (map fst f)" and "map_of f ''-'' = Some path"
  shows "rawBodyFilename f = path"
proof -
  have "fold (\<lambda>(k, v) name. if k = ''-'' then v else name) f x = path" for x
    using assms
  proof (induction f arbitrary: x)
    case Nil
    then show ?case by simp
  next
    case (Cons p f)
    obtain k v where p: "p = (k, v)" by (cases p)
    show ?case
    proof (cases "k = ''-''")
      case True
      with Cons.prems have "v = path" and "''-'' \<notin> fst ` set f" by (auto simp: p)
      then show ?thesis using fold_dash_absent [of f v] True by (simp add: p)
    next
      case False
      with Cons.prems have "distinct (map fst f)" "map_of f ''-'' = Some path"
        by (simp_all add: p)
      from Cons.IH [OF this] show ?thesis using False by (simp add: p)
    qed
  qed
  then show ?thesis by (simp add: rawBodyFilename_def)
qed

lemma rawBodyFilename_absent:
  "map_of f ''-'' = None \<Longrightarrow> rawBodyFilename f = []"
  using fold_dash_absent [of f "[]"]
  by (simp add: rawBodyFilename_def map_of_eq_None_iff)

lemma more_than_one_file:
  assumes "distinct (map fst f)" and "map_of f ''-'' = Some path"
  shows "length f > 1 \<longleftrightarrow> (\<exists>k. k \<noteq> ''-'' \<and> map_of f k \<noteq> None)"
proof
  assume "length f > 1"
  then obtain a b r where f: "f = a # b # r"
    by (cases f; cases "tl f") auto
  with assms(1) have "fst a \<noteq> fst b" by simp
  then have "fst a \<noteq> ''-'' \<or> fst b \<noteq> ''-''" by auto
  moreover have "map_of f (fst a) \<noteq> None" "map_of f (fst b) \<noteq> None"
    by (simp_all add: f map_of_eq_None_iff)
  ultimately show "\<exists>k. k \<noteq> ''-'' \<and> map_of f k \<noteq> None" by blast
next
  assume "\<exists>k. k \<noteq> ''-'' \<and> map_of f k \<noteq> None"
  then obtain k where k: "k \<noteq> ''-''" "k \<in> fst ` set f"
    by (auto simp: map_of_eq_None_iff)
  from assms(2) have "''-'' \<in> fst ` set f"
    by (metis map_of_eq_None_iff option.distinct(1))
  with k have "card {k, ''-''} \<le> card (fst ` set f)"
    by (intro card_mono) auto
  also have "\<dots> \<le> length f"
    by (metis card_length length_map list.set_map)
  finally show "length f > 1" using k(1) by simp
qed

text \<open>Evaluating the model of \<^verbatim>\<open>main\<close> on given arguments in the example environment.\<close>

lemmas eval_main =
  compile_def build_def parseArgs_def empty_kvpairs_def parseArgs_step_def index_values_def
  merge_params_def add_body_def body_value_def assemble_def rawBodyFilename_def postFiles_def
  finish_def add_query_def URL_Query_def set_auth_def method_tokens_def HasPrefix_def
  example_extern_def Header_Add_def Header_Set_def coerce_def Add_def

lemma assemble_raw:
  assumes "rawBodyFilename (file_map kvp) = path" and "path \<noteq> []"
  shows "assemble E fl kvp bodyparams hdr =
     (if length (file_map kvp) > 1 then ([], Inl OnlyOneInputFile)
      else (if length bodyparams > 0 then [ExtraBodyParametersIgnored] else [],
            case ReadFile E path of
              Inl OpenFailed \<Rightarrow> Inl UnableToOpenFileForBody
            | Inl ReadFailed \<Rightarrow> Inl ErrorReadingBody
            | Inr content \<Rightarrow>
                Inr (Some content, Header_Add hdr ''Content-Type'' ''application/octet-stream'')))"
proof -
  have ne: "rawBodyFilename (file_map kvp) \<noteq> []" using assms by simp
  have "assemble E fl kvp bodyparams hdr =
     (if length (file_map kvp) > 1 then ([], Inl OnlyOneInputFile)
      else
        let lg = (if length bodyparams > 0 then [ExtraBodyParametersIgnored] else []) in
        (case ReadFile E (rawBodyFilename (file_map kvp)) of
           Inl OpenFailed \<Rightarrow> (lg, Inl UnableToOpenFileForBody)
         | Inl ReadFailed \<Rightarrow> (lg, Inl ErrorReadingBody)
         | Inr content \<Rightarrow>
             (lg, Inr (Some content, Header_Add hdr ''Content-Type'' ''application/octet-stream''))))"
    unfolding assemble_def by (simp only: ne not_False_eq_True if_True)
  also have "\<dots> =
     (if length (file_map kvp) > 1 then ([], Inl OnlyOneInputFile)
      else (if length bodyparams > 0 then [ExtraBodyParametersIgnored] else [],
            case ReadFile E path of
              Inl OpenFailed \<Rightarrow> Inl UnableToOpenFileForBody
            | Inl ReadFailed \<Rightarrow> Inl ErrorReadingBody
            | Inr content \<Rightarrow>
                Inr (Some content, Header_Add hdr ''Content-Type'' ''application/octet-stream'')))"
  proof (cases "ReadFile E path")
    case (Inl e)
    then show ?thesis by (cases e) (simp_all add: assms(1) Let_def)
  next
    case (Inr content)
    then show ?thesis by (simp add: assms(1) Let_def)
  qed
  finally show ?thesis .
qed

lemma raw_several:
  assumes "distinct (map fst (file_map kvp))" "map_of (file_map kvp) ''-'' = Some path" "path \<noteq> []"
    and "\<exists>k. k \<noteq> ''-'' \<and> map_of (file_map kvp) k \<noteq> None"
  shows "assemble E fl kvp bodyparams hdr = ([], Inl OnlyOneInputFile)"
proof -
  have "length (file_map kvp) > 1"
    using more_than_one_file [OF assms(1,2)] assms(4) by blast
  then show ?thesis
    unfolding assemble_raw [OF rawBodyFilename_present [OF assms(1,2)] assms(3)]
    by (simp only: if_True)
qed

lemma raw_single:
  assumes "distinct (map fst (file_map kvp))" "map_of (file_map kvp) ''-'' = Some path" "path \<noteq> []"
    and "\<forall>k. k \<noteq> ''-'' \<longrightarrow> map_of (file_map kvp) k = None" and "ReadFile E path = Inr content"
  shows "assemble E fl kvp bodyparams hdr =
          (if bodyparams \<noteq> [] then [ExtraBodyParametersIgnored] else [],
           Inr (Some content, Header_Add hdr ''Content-Type'' ''application/octet-stream''))"
proof -
  have "\<not> (\<exists>k. k \<noteq> ''-'' \<and> map_of (file_map kvp) k \<noteq> None)"
  proof
    assume "\<exists>k. k \<noteq> ''-'' \<and> map_of (file_map kvp) k \<noteq> None"
    then obtain k where k: "k \<noteq> ''-''" and s: "map_of (file_map kvp) k \<noteq> None"
      by (elim exE conjE)
    from assms(4) [rule_format, OF k] s show False by (rule notE [rotated])
  qed
  then have n: "(length (file_map kvp) > 1) = False"
    by (simp only: more_than_one_file [OF assms(1,2)])
  note r = assemble_raw [OF rawBodyFilename_present [OF assms(1,2)] assms(3), of E fl bodyparams hdr]
  have "assemble E fl kvp bodyparams hdr =
      (if length bodyparams > 0 then [ExtraBodyParametersIgnored] else [],
       Inr (Some content, Header_Add hdr ''Content-Type'' ''application/octet-stream''))"
    by (simp only: r n if_False assms(5) sum.case)
  then show ?thesis by (simp only: length_greater_0_conv)
qed

lemma raw_params_ignored:
  assumes "distinct (map fst (file_map kvp))" "map_of (file_map kvp) ''-'' = Some path" "path \<noteq> []"
  shows "snd (assemble E fl kvp bodyparams hdr) = snd (assemble E fl kvp [] hdr)"
  unfolding assemble_raw [OF rawBodyFilename_present [OF assms(1,2)] assms(3)]
  by (cases "length (file_map kvp) > 1") (simp_all only: if_True if_False snd_conv)

text \<open>
  Claim C3, as the specification states it: whenever the file map holds the key \<^verbatim>\<open>-\<close>,
  the raw file is the body, and one more file entry is the fatal error of several raw
  body files. It fails when the path given for \<^verbatim>\<open>-\<close> is empty, as in the argument \<^verbatim>\<open>-@\<close>:
  the code keeps the name of the raw body file in a string and takes the empty string
  for "none", so with a second file entry it does not report several files; it goes on
  to read the files as body values and fails on opening the empty path.
\<close>

theorem raw_body_empty_path_counterexample:
  "parseArgs [[CHR ''-'', CHR ''@''], ''upload@body.bin'']
     = Inr \<lparr>headers = [], query = [], body = [], js = [],
            file_map = [(''-'', []), (''upload'', ''body.bin'')]\<rparr>
   \<and> map_of [(''-'', []), (''upload'', ''body.bin'')] ''-'' = Some []
   \<and> map_of [(''-'', []), (''upload'', ''body.bin'')] ''upload'' \<noteq> None
   \<and> assemble example_extern \<lparr>postform = False, useMultipart = True, auth = []\<rparr>
        \<lparr>headers = [], query = [], body = [], js = [],
         file_map = [(''-'', []), (''upload'', ''body.bin'')]\<rparr> [] []
       = ([], Inl UnableToOpenFileForBody)
   \<and> assemble example_extern \<lparr>postform = False, useMultipart = True, auth = []\<rparr>
        \<lparr>headers = [], query = [], body = [], js = [],
         file_map = [(''-'', []), (''upload'', ''body.bin'')]\<rparr> [] []
       \<noteq> ([], Inl OnlyOneInputFile)"
  by (simp add: eval_main eval_string)

text \<open>
  Claim C3, amended: for every bundle whose file map, a map with one entry for each key,
  gives the key \<^verbatim>\<open>-\<close> a path that is not empty: when the map holds another entry the
  program ends with the fatal error of several input files; when it holds no other and
  the file can be read, the body is the content of the file, the content type is
  \<^verbatim>\<open>application/octet-stream\<close>, and the only trace of the body parameters is the logged
  warning when there are some; and in every case the outcome, error or body, is the one
  that the same bundle has without body parameters.
\<close>

theorem raw_body_file_selected:
  "distinct (map fst (file_map kvp)) \<and> map_of (file_map kvp) ''-'' = Some path \<and> path \<noteq> [] \<longrightarrow>
     ((\<exists>k. k \<noteq> ''-'' \<and> map_of (file_map kvp) k \<noteq> None) \<longrightarrow>
        assemble E fl kvp bodyparams hdr = ([], Inl OnlyOneInputFile))
   \<and> ((\<forall>k. k \<noteq> ''-'' \<longrightarrow> map_of (file_map kvp) k = None) \<and> ReadFile E path = Inr content \<longrightarrow>
        assemble E fl kvp bodyparams hdr =
          (if bodyparams \<noteq> [] then [ExtraBodyParametersIgnored] else [],
           Inr (Some content, Header_Add hdr ''Content-Type'' ''application/octet-stream'')))
   \<and> snd (assemble E fl kvp bodyparams hdr) = snd (assemble E fl kvp [] hdr)"
proof (intro impI conjI)
  assume h: "distinct (map fst (file_map kvp)) \<and> map_of (file_map kvp) ''-'' = Some path \<and> path \<noteq> []"
  then have d: "distinct (map fst (file_map kvp))" and m: "map_of (file_map kvp) ''-'' = Some path"
    and p: "path \<noteq> []" by simp_all
  {
    assume "\<exists>k. k \<noteq> ''-'' \<and> map_of (file_map kvp) k \<noteq> None"
    then show "assemble E fl kvp bodyparams hdr = ([], Inl OnlyOneInputFile)"
      by (rule raw_several [OF d m p])
  }
  {
    assume "(\<forall>k. k \<noteq> ''-'' \<longrightarrow> map_of (file_map kvp) k = None) \<and> ReadFile E path = Inr content"
    then have "\<forall>k. k \<noteq> ''-'' \<longrightarrow> map_of (file_map kvp) k = None" "ReadFile E path = Inr content"
      by simp_all
    then show "assemble E fl kvp bodyparams hdr =
          (if bodyparams \<noteq> [] then [ExtraBodyParametersIgnored] else [],
           Inr (Some content, Header_Add hdr ''Content-Type'' ''application/octet-stream''))"
      by (rule raw_single [OF d m p])
  }
  show "snd (assemble E fl kvp bodyparams hdr) = snd (assemble E fl kvp [] hdr)"
    by (rule raw_params_ignored [OF d m p])
qed

text \<open>
  The amended claim C3 at the file map of \<^verbatim>\<open>-@body.bin\<close> with the body parameter \<^verbatim>\<open>a=b\<close>,
  and at the file map of \<^verbatim>\<open>-@body.bin\<close> and \<^verbatim>\<open>upload@x\<close>.
\<close>

theorem raw_body_file_selected_witness:
  "distinct (map fst [(''-'', ''body.bin'')]) \<and> map_of [(''-'', ''body.bin'')] ''-'' = Some ''body.bin''
   \<and> ''body.bin'' \<noteq> []
   \<and> map fst [(''-'', ''body.bin'')] = [''-'']
   \<and> ReadFile example_extern ''body.bin'' = Inr ''BYTES''
   \<and> assemble example_extern \<lparr>postform = False, useMultipart = True, auth = []\<rparr>
        \<lparr>headers = [], query = [], body = [(''a'', [''b''])], js = [],
         file_map = [(''-'', ''body.bin'')]\<rparr> [(''a'', GString ''b'')] []
       = ([ExtraBodyParametersIgnored],
          Inr (Some ''BYTES'', [(''Content-Type'', [''application/octet-stream''])]))
   \<and> distinct (map fst [(''-'', ''body.bin''), (''upload'', ''x'')])
   \<and> map_of [(''-'', ''body.bin''), (''upload'', ''x'')] ''-'' = Some ''body.bin''
   \<and> (\<exists>k. k \<noteq> ''-'' \<and> map_of [(''-'', ''body.bin''), (''upload'', ''x'')] k \<noteq> None)
   \<and> assemble example_extern \<lparr>postform = False, useMultipart = True, auth = []\<rparr>
        \<lparr>headers = [], query = [], body = [], js = [],
         file_map = [(''-'', ''body.bin''), (''upload'', ''x'')]\<rparr> [] []
       = ([], Inl OnlyOneInputFile)"
proof -
  let ?fl = "\<lparr>postform = False, useMultipart = True, auth = []\<rparr>"
  let ?S = "\<lparr>headers = [], query = [], body = [(''a'', [''b''])], js = [],
         file_map = [(''-'', ''body.bin'')]\<rparr>"
  let ?M = "\<lparr>headers = [], query = [], body = [], js = [],
         file_map = [(''-'', ''body.bin''), (''upload'', ''x'')]\<rparr>"
  let ?bp = "[(''a'', GString ''b'')] :: (string, int gvalue) gomap"
  have s1: "distinct (map fst (file_map ?S))" "map_of (file_map ?S) ''-'' = Some ''body.bin''"
    "''body.bin'' \<noteq> []"
    by simp_all
  have k1: "map fst [(''-'', ''body.bin'')] = [''-'']" by simp
  have s2: "\<forall>k. k \<noteq> ''-'' \<longrightarrow> map_of (file_map ?S) k = None" by simp
  have s3: "ReadFile example_extern ''body.bin'' = Inr ''BYTES''"
    by (simp add: example_extern_def)
  have m1: "distinct (map fst (file_map ?M))" "map_of (file_map ?M) ''-'' = Some ''body.bin''"
    by simp_all
  have "''upload'' \<noteq> ''-'' \<and> map_of (file_map ?M) ''upload'' \<noteq> None" by simp
  then have m2: "\<exists>k. k \<noteq> ''-'' \<and> map_of (file_map ?M) k \<noteq> None" by (rule exI)
  note S = raw_body_file_selected [of ?S "''body.bin''" example_extern ?fl ?bp "[]" "''BYTES''",
      THEN mp, OF conjI [OF s1(1) conjI [OF s1(2) s1(3)]]]
  have a: "assemble example_extern ?fl ?S ?bp [] =
          (if ?bp \<noteq> [] then [ExtraBodyParametersIgnored] else [],
           Inr (Some ''BYTES'', Header_Add [] ''Content-Type'' ''application/octet-stream''))"
    by (rule S [THEN conjunct2, THEN conjunct1, THEN mp, OF conjI [OF s2 s3]])
  have rhs: "(if ?bp \<noteq> [] then [ExtraBodyParametersIgnored] else [],
           Inr (Some ''BYTES'', Header_Add [] ''Content-Type'' ''application/octet-stream''))
      = ([ExtraBodyParametersIgnored],
          Inr (Some ''BYTES'', [(''Content-Type'', [''application/octet-stream''])]))"
    by (simp add: Header_Add_def index_values_def)
  note M = raw_body_file_selected [of ?M "''body.bin''" example_extern ?fl "[]" "[]",
      THEN mp, OF conjI [OF m1(1) conjI [OF m1(2) s1(3)]]]
  have b: "assemble example_extern ?fl ?M [] [] = ([], Inl OnlyOneInputFile)"
    by (rule M [THEN conjunct1, THEN mp, OF m2])
  have sel: "file_map ?S = [(''-'', ''body.bin'')]"
    "file_map ?M = [(''-'', ''body.bin''), (''upload'', ''x'')]"
    by simp_all
  show ?thesis
    apply (intro conjI)
    subgoal using s1(1) [unfolded sel] .
    subgoal using s1(2) [unfolded sel] .
    subgoal using s1(3) .
    subgoal using k1 .
    subgoal using s3 .
    subgoal using a [unfolded rhs] .
    subgoal using m1(1) [unfolded sel] .
    subgoal using m1(2) [unfolded sel] .
    subgoal using m2 [unfolded sel] .
    subgoal using b .
    done
qed






section \<open>Method and payload\<close>










end
